theory Spec2Isabelle
  imports Main
begin

section \<open>Manual clustering session (phy/cluster/manual/session.py)\<close>

text \<open>
  The session object of \<^verbatim>\<open>session.py\<close> owns a data model, a clustering, a selector, the
  cluster metadata and a global undo/redo history, and announces every change to its
  observers. Python exceptions are values of \<open>error\<close>; an attribute that has not been
  set yet is \<open>None\<close> in an option field, and reading it raises \<open>AttributeError\<close>.
  Cluster ids and spike ids are Python integers.
\<close>

datatype error = InvalidOperation | AttributeError | LoadError

subsection \<open>Update descriptors\<close>

text \<open>
  Modelled from the spec: the descriptor of one mutation (the class that \<^verbatim>\<open>session.py\<close>
  passes around as \<^verbatim>\<open>up\<close> is not in the source): the cluster ids removed, the ids added and
  those of the added ids to select.
\<close>

record update_descriptor =
  removed :: "int set"
  added :: "int set"
  selected :: "int set"

subsection \<open>Clustering\<close>

text \<open>
  Modelled from the spec: the class \<^verbatim>\<open>Clustering\<close> (module \<^verbatim>\<open>clustering\<close>) is imported by
  \<^verbatim>\<open>session.py\<close> but its code is missing. The assignment is the list of cluster ids in
  spike order; the allocator holds the next id to mint, starts above every initial id and
  only grows. The clustering keeps the assignment it was created with: that is the state
  which the initial baseline of the history stands for.
\<close>

record clustering =
  spike_clusters :: "int list"
  new_cluster_id :: int
  spike_clusters_base :: "int list"

text \<open>Modelled from the spec: the constructor \<^verbatim>\<open>Clustering(spike_clusters)\<close>.\<close>

definition Clustering :: "int list \<Rightarrow> clustering" where
  "Clustering sc =
     \<lparr>spike_clusters = sc,
      new_cluster_id = (case sc of [] \<Rightarrow> 0 | x # xs \<Rightarrow> fold max xs x + 1),
      spike_clusters_base = sc\<rparr>"

text \<open>Modelled from the spec: \<^verbatim>\<open>cluster_ids\<close>, the sorted set of the ids in use.\<close>

definition cluster_ids :: "clustering \<Rightarrow> int list" where
  "cluster_ids c = sort (remdups (spike_clusters c))"

text \<open>
  Modelled from the spec: \<^verbatim>\<open>Clustering.merge\<close>. Fewer than two distinct ids, or an id that
  is not in use, is an \<open>InvalidOperation\<close>; otherwise every spike of the given clusters
  is relabelled with one freshly minted id.
\<close>

definition clustering_merge ::
  "clustering \<Rightarrow> int list \<Rightarrow> error + (update_descriptor \<times> clustering)" where
  "clustering_merge c clusters =
     (if card (set clusters) < 2 \<or> \<not> set clusters \<subseteq> set (spike_clusters c)
      then Inl InvalidOperation
      else
        let new = new_cluster_id c in
        Inr (\<lparr>removed = set clusters, added = {new}, selected = {new}\<rparr>,
             c\<lparr>spike_clusters :=
                 map (\<lambda>k. if k \<in> set clusters then new else k) (spike_clusters c),
               new_cluster_id := new + 1\<rparr>))"

text \<open>
  Modelled from the spec: \<^verbatim>\<open>Clustering.split\<close>. An empty spike set or an unknown spike id is
  an \<open>InvalidOperation\<close>; otherwise the given spikes are peeled off into one freshly
  minted id and every donor keeps its id for the spikes it has left (a donor that loses
  all of its spikes is thereby retired). The descriptor reports the donors as removed
  and the resulting ids, the new one and the surviving donors, as added and selected.
\<close>

definition clustering_split ::
  "clustering \<Rightarrow> int list \<Rightarrow> error + (update_descriptor \<times> clustering)" where
  "clustering_split c spikes =
     (if spikes = [] \<or> (\<exists>i \<in> set spikes. i < 0 \<or> int (length (spike_clusters c)) \<le> i)
      then Inl InvalidOperation
      else
        let new = new_cluster_id c;
            sc = spike_clusters c;
            sc' = map (\<lambda>i. if int i \<in> set spikes then new else sc ! i) [0..<length sc];
            donors = (\<lambda>i. sc ! nat i) ` set spikes;
            resulting = insert new (donors \<inter> set sc')
        in Inr (\<lparr>removed = donors, added = resulting, selected = resulting\<rparr>,
                c\<lparr>spike_clusters := sc', new_cluster_id := new + 1\<rparr>))"

subsection \<open>Cluster metadata\<close>

text \<open>
  Modelled from the spec: the cluster metadata object is supplied by the data source and
  supports \<^verbatim>\<open>set_group(clusters, group)\<close>, which returns an update descriptor. It is an
  association list from cluster id to group; a group change adds and removes no id.
\<close>

type_synonym cluster_metadata = "(int \<times> int) list"

text \<open>Modelled from the spec: the group of one cluster is set, or overwritten.\<close>

fun assign_group :: "int \<Rightarrow> int \<Rightarrow> cluster_metadata \<Rightarrow> cluster_metadata" where
  "assign_group k g [] = [(k, g)]"
| "assign_group k g ((k', g') # md) =
     (if k = k' then (k, g) # md else (k', g') # assign_group k g md)"

text \<open>Modelled from the spec: \<^verbatim>\<open>ClusterMetadata.set_group(clusters, group)\<close>.\<close>

definition set_group ::
  "cluster_metadata \<Rightarrow> int list \<Rightarrow> int \<Rightarrow> update_descriptor \<times> cluster_metadata" where
  "set_group md clusters g =
     (\<lparr>removed = {}, added = {}, selected = {}\<rparr>, fold (\<lambda>k. assign_group k g) clusters md)"

subsection \<open>Selector\<close>

text \<open>
  Modelled from the spec: the class \<^verbatim>\<open>Selector\<close> holds the assignment it was built from, the
  cap \<^verbatim>\<open>n_spikes_max\<close> and the selected clusters. \<^verbatim>\<open>selected_spikes\<close> lists the spikes of
  the selected clusters in spike order and, above the cap, keeps every k-th of them
  (uniform stride) and at most \<^verbatim>\<open>n_spikes_max\<close>.
\<close>

record selector =
  sel_spike_clusters :: "int list"
  n_spikes_max :: nat
  selected_clusters :: "int list"

text \<open>
  Modelled from the spec: the constructor \<^verbatim>\<open>Selector(spike_clusters, n_spikes_max)\<close>; nothing
  is selected at first.
\<close>

definition Selector :: "int list \<Rightarrow> nat \<Rightarrow> selector" where
  "Selector sc n = \<lparr>sel_spike_clusters = sc, n_spikes_max = n, selected_clusters = []\<rparr>"

text \<open>
  Modelled from the spec: the sampling rule. \<open>stride k\<close> keeps the first of every \<open>k\<close>
  elements; \<open>subsample n\<close> keeps everything up to the cap \<open>n\<close> and above it the first
  \<open>n\<close> elements of the stride \<open>length xs div n\<close>.
\<close>

fun stride :: "nat \<Rightarrow> 'a list \<Rightarrow> 'a list" where
  "stride k [] = []"
| "stride k (x # xs) = x # stride k (drop (k - 1) xs)"

definition subsample :: "nat \<Rightarrow> 'a list \<Rightarrow> 'a list" where
  "subsample n xs =
     (if length xs \<le> n then xs else take n (stride (length xs div n) xs))"

text \<open>
  Modelled from the spec: the spikes that belong to the given clusters, in spike order, and
  the property \<^verbatim>\<open>Selector.selected_spikes\<close>.
\<close>

definition spikes_in_clusters :: "int list \<Rightarrow> int list \<Rightarrow> int list" where
  "spikes_in_clusters sc clusters =
     map int (filter (\<lambda>i. sc ! i \<in> set clusters) [0..<length sc])"

definition selected_spikes :: "selector \<Rightarrow> int list" where
  "selected_spikes sel =
     subsample (n_spikes_max sel)
       (spikes_in_clusters (sel_spike_clusters sel) (selected_clusters sel))"

subsection \<open>Global history\<close>

text \<open>
  Modelled from the spec: the class \<^verbatim>\<open>GlobalHistory\<close> (module \<^verbatim>\<open>_history\<close>) is a two-stack
  log, the head of each list being the top of the stack. A new history holds one entry,
  the initial baseline, which stands for the state its target was created in; every other
  entry is a snapshot taken by \<^verbatim>\<open>action\<close>. A snapshot of a clustering is its assignment;
  the allocator is not part of it, since a retired id is never minted again. The only
  target the session ever records is its clustering, and history and clustering are
  replaced together on \<^verbatim>\<open>open\<close>, so an entry needs no reference to its target: \<open>undo\<close>
  and \<open>redo\<close> are given the target, return the snapshot to restore, and the session
  writes it into its clustering.
\<close>

type_synonym snapshot = "int list"

datatype history_entry = Baseline | Snapshot snapshot

record global_history =
  undo_stack :: "history_entry list"
  redo_stack :: "history_entry list"

text \<open>
  Modelled from the spec: the constructor \<^verbatim>\<open>GlobalHistory()\<close>, which holds the initial
  baseline and nothing to redo.
\<close>

definition GlobalHistory :: global_history where
  "GlobalHistory = \<lparr>undo_stack = [Baseline], redo_stack = []\<rparr>"

text \<open>
  Modelled from the spec: \<open>capture\<close> and \<open>restore\<close>, the snapshot of a clustering and
  its way back; the state an entry stands for, given the target; and the descriptor of
  the net difference between two assignments.
\<close>

definition capture :: "clustering \<Rightarrow> snapshot" where
  "capture c = spike_clusters c"

definition restore :: "snapshot \<Rightarrow> clustering \<Rightarrow> clustering" where
  "restore snap c = c\<lparr>spike_clusters := snap\<rparr>"

fun entry_state :: "clustering option \<Rightarrow> history_entry \<Rightarrow> snapshot" where
  "entry_state target (Snapshot snap) = snap"
| "entry_state (Some c) Baseline = spike_clusters_base c"
| "entry_state None Baseline = []"

definition net_difference :: "snapshot \<Rightarrow> snapshot \<Rightarrow> update_descriptor" where
  "net_difference old_snap new_snap =
     \<lparr>removed = set old_snap - set new_snap, added = set new_snap - set old_snap,
      selected = {}\<rparr>"

text \<open>Modelled from the spec: \<^verbatim>\<open>GlobalHistory.action(target)\<close>.\<close>

definition action :: "clustering \<Rightarrow> global_history \<Rightarrow> global_history" where
  "action target h =
     \<lparr>undo_stack = Snapshot (capture target) # undo_stack h, redo_stack = []\<rparr>"

text \<open>
  Modelled from the spec: \<^verbatim>\<open>GlobalHistory.undo()\<close>. With at most one entry, the initial
  baseline, there is nothing to undo. The first component is the descriptor, \<open>None\<close>
  being the marker for nothing to undo; the last is the snapshot the target is restored
  to.
\<close>

definition gh_undo ::
  "clustering option \<Rightarrow> global_history \<Rightarrow>
   update_descriptor option \<times> global_history \<times> snapshot option" where
  "gh_undo target h =
     (case undo_stack h of
        latest # below # rest \<Rightarrow>
          (Some (net_difference (entry_state target latest) (entry_state target below)),
           \<lparr>undo_stack = below # rest, redo_stack = latest # redo_stack h\<rparr>,
           Some (entry_state target below))
      | _ \<Rightarrow> (None, h, None))"

text \<open>Modelled from the spec: \<^verbatim>\<open>GlobalHistory.redo()\<close>.\<close>

definition gh_redo ::
  "clustering option \<Rightarrow> global_history \<Rightarrow>
   update_descriptor option \<times> global_history \<times> snapshot option" where
  "gh_redo target h =
     (case redo_stack h of
        [] \<Rightarrow> (None, h, None)
      | entry # rest \<Rightarrow>
          (Some (net_difference
                   (case undo_stack h of [] \<Rightarrow> [] | latest # _ \<Rightarrow> entry_state target latest)
                   (entry_state target entry)),
           \<lparr>undo_stack = entry # undo_stack h, redo_stack = rest\<rparr>,
           Some (entry_state target entry)))"

subsection \<open>The data model\<close>

text \<open>
  Modelled from the spec: the model (\<^verbatim>\<open>KwikModel\<close>, \<^verbatim>\<open>BaseModel\<close>) is supplied by the data
  source. Of its attributes the session reads \<^verbatim>\<open>spike_clusters\<close> and \<^verbatim>\<open>cluster_metadata\<close>;
  waveforms, masks and probe positions are only handed on to the rendering and are left
  out.
\<close>

record kwik_model =
  m_spike_clusters :: "int list"
  m_cluster_metadata :: cluster_metadata

subsection \<open>Events, observers and views\<close>

datatype event = Ev_open | Ev_cluster | Ev_select

text \<open>
  What \<^verbatim>\<open>emit\<close> is called with. The keyword \<^verbatim>\<open>add_to_stack\<close> of a \<^verbatim>\<open>cluster\<close> event is
  \<open>None\<close> when the call does not pass it.
\<close>

datatype notification =
  Notify_open
| Notify_cluster "update_descriptor option" "bool option"
| Notify_select

fun event_of :: "notification \<Rightarrow> event" where
  "event_of Notify_open = Ev_open"
| "event_of (Notify_cluster up a) = Ev_cluster"
| "event_of Notify_select = Ev_select"

text \<open>
  The callbacks that get connected: the session's own \<^verbatim>\<open>on_open\<close> and \<^verbatim>\<open>on_cluster\<close>, the
  three closures of \<^verbatim>\<open>show_waveforms\<close> (numbered by their view) and observers of other
  collaborators, which read the session and never change it.
\<close>

datatype callback =
  Session_on_open
| Session_on_cluster
| View_on_open nat
| View_on_cluster nat
| View_on_select nat
| Observer nat

datatype trace_item = Emitted notification | Delivered callback notification

text \<open>
  A \<^verbatim>\<open>WaveformView\<close> as far as the closures of \<^verbatim>\<open>show_waveforms\<close> write to it.
\<close>

record view =
  always_on_top :: bool
  visual_spike_clusters :: "int list option"
  visual_cluster_metadata :: "cluster_metadata option"
  visual_spike_ids :: "int list option"
  updates :: nat

subsection \<open>The session\<close>

text \<open>
  The attributes \<^verbatim>\<open>_global_history\<close>, \<^verbatim>\<open>clustering\<close>, \<^verbatim>\<open>cluster_metadata\<close> and \<^verbatim>\<open>selector\<close>
  do not exist before \<^verbatim>\<open>on_open\<close> has run: they are \<open>None\<close> until then. \<open>views\<close> holds
  the views that the closures of \<^verbatim>\<open>show_waveforms\<close> have captured.
\<close>

record session =
  model :: "kwik_model option"
  filename :: "string option"
  backend :: "string option"
  actions :: "(string \<times> string) list"
  callbacks :: "(event \<times> callback) list"
  global_history :: "global_history option"
  clustering :: "clustering option"
  cluster_metadata :: "cluster_metadata option"
  selector :: "selector option"
  views :: "view list"

text \<open>What a call leaves behind: the exception raised, if any, the state and the events.\<close>

record outcome =
  raised :: "error option"
  post :: session
  trace :: "trace_item list"

text \<open>\<^verbatim>\<open>Session.__init__\<close>\<close>

definition Session :: "string option \<Rightarrow> session" where
  "Session b =
     \<lparr>model = None, filename = None, backend = b,
      actions =
        [(''open'', ''Open''), (''select'', ''Select clusters''), (''merge'', ''Merge''),
         (''split'', ''Split''), (''move'', ''Move clusters to a group''),
         (''undo'', ''Undo''), (''redo'', ''Redo''),
         (''show_waveforms'', ''Show waveforms''), (''show_clusters'', ''Show clusters'')],
      callbacks = [(Ev_open, Session_on_open), (Ev_cluster, Session_on_cluster)],
      global_history = None, clustering = None, cluster_metadata = None,
      selector = None, views = []\<rparr>"

text \<open>\<^verbatim>\<open>Session.on_open\<close>\<close>

definition on_open :: "session \<Rightarrow> error option \<times> session" where
  "on_open s =
     (let s1 = s\<lparr>global_history := Some GlobalHistory\<rparr> in
      case model s1 of
        None \<Rightarrow> (Some AttributeError, s1)
      | Some m \<Rightarrow>
          (None,
           s1\<lparr>clustering := Some (Clustering (m_spike_clusters m)),
              cluster_metadata := Some (m_cluster_metadata m),
              selector := Some (Selector (m_spike_clusters m) 100)\<rparr>))"

text \<open>\<^verbatim>\<open>Session.on_cluster\<close>\<close>

definition on_cluster ::
  "update_descriptor option \<Rightarrow> bool \<Rightarrow> session \<Rightarrow> error option \<times> session" where
  "on_cluster up add_to_stack s =
     (if add_to_stack then
        (case global_history s of
           None \<Rightarrow> (Some AttributeError, s)
         | Some h \<Rightarrow>
             (case clustering s of
                None \<Rightarrow> (Some AttributeError, s)
              | Some c \<Rightarrow> (None, s\<lparr>global_history := Some (action c h)\<rparr>)))
      else (None, s))"

definition upd_view :: "nat \<Rightarrow> (view \<Rightarrow> view) \<Rightarrow> session \<Rightarrow> session" where
  "upd_view v f s = s\<lparr>views := (views s)[v := f (views s ! v)]\<rparr>"

text \<open>The closure \<^verbatim>\<open>on_open\<close> of \<^verbatim>\<open>show_waveforms\<close>\<close>

definition view_on_open :: "nat \<Rightarrow> session \<Rightarrow> error option \<times> session" where
  "view_on_open v s =
     (case model s of
        None \<Rightarrow> (None, s)
      | Some m \<Rightarrow>
          (case clustering s of
             None \<Rightarrow> (Some AttributeError, s)
           | Some c \<Rightarrow>
               (let s1 = upd_view v (\<lambda>w. w\<lparr>visual_spike_clusters := Some (spike_clusters c)\<rparr>) s
                in case cluster_metadata s1 of
                     None \<Rightarrow> (Some AttributeError, s1)
                   | Some md \<Rightarrow>
                       (None,
                        upd_view v
                          (\<lambda>w. w\<lparr>visual_cluster_metadata := Some md,
                                 updates := updates w + 1\<rparr>) s1))))"

text \<open>The closure \<^verbatim>\<open>on_select\<close> of \<^verbatim>\<open>show_waveforms\<close>\<close>

definition view_on_select :: "nat \<Rightarrow> session \<Rightarrow> error option \<times> session" where
  "view_on_select v s =
     (case selector s of
        None \<Rightarrow> (Some AttributeError, s)
      | Some sel \<Rightarrow>
          (let spikes = selected_spikes sel in
           if length spikes = 0 then (None, s)
           else
             (case model s of
                None \<Rightarrow> (Some AttributeError, s)
              | Some m \<Rightarrow>
                  (None,
                   upd_view v
                     (\<lambda>w. w\<lparr>visual_spike_ids := Some spikes, updates := updates w + 1\<rparr>) s))))"

text \<open>
  Calling one callback with the arguments of a notification. \<^verbatim>\<open>on_cluster\<close> has the
  defaults \<^verbatim>\<open>up=None, add_to_stack=True\<close>; the closure \<^verbatim>\<open>on_cluster\<close> of a view does nothing.
\<close>

fun run_callback :: "callback \<Rightarrow> notification \<Rightarrow> session \<Rightarrow> error option \<times> session" where
  "run_callback Session_on_open n s = on_open s"
| "run_callback Session_on_cluster (Notify_cluster up a) s =
     on_cluster up (case a of None \<Rightarrow> True | Some b \<Rightarrow> b) s"
| "run_callback Session_on_cluster n s = on_cluster None True s"
| "run_callback (View_on_open v) n s = view_on_open v s"
| "run_callback (View_on_cluster v) n s = (None, s)"
| "run_callback (View_on_select v) n s = view_on_select v s"
| "run_callback (Observer k) n s = (None, s)"

text \<open>
  Modelled from the spec: \<^verbatim>\<open>EventEmitter.emit\<close> (module \<^verbatim>\<open>utils.event\<close>) delivers a
  notification to the callbacks connected to its event, in the order of registration; a
  callback that raises ends the delivery.
\<close>

fun deliver :: "callback list \<Rightarrow> notification \<Rightarrow> session \<Rightarrow> outcome" where
  "deliver [] n s = \<lparr>raised = None, post = s, trace = []\<rparr>"
| "deliver (cb # cbs) n s =
     (case run_callback cb n s of
        (Some e, s') \<Rightarrow> \<lparr>raised = Some e, post = s', trace = [Delivered cb n]\<rparr>
      | (None, s') \<Rightarrow>
          (let r = deliver cbs n s' in r\<lparr>trace := Delivered cb n # trace r\<rparr>))"

text \<open>
  Modelled from the spec: the callbacks connected to an event, in the order of
  registration, and \<^verbatim>\<open>EventEmitter.emit\<close> itself.
\<close>

definition callbacks_for :: "event \<Rightarrow> session \<Rightarrow> callback list" where
  "callbacks_for ev s = map snd (filter (\<lambda>p. fst p = ev) (callbacks s))"

definition emit :: "notification \<Rightarrow> session \<Rightarrow> outcome" where
  "emit n s =
     (let r = deliver (callbacks_for (event_of n) s) n s in r\<lparr>trace := Emitted n # trace r\<rparr>)"

text \<open>
  Modelled from the spec: \<^verbatim>\<open>EventEmitter.connect\<close> appends a callback to the registrations
  of the event it is named after.
\<close>

definition connect :: "event \<Rightarrow> callback \<Rightarrow> session \<Rightarrow> session" where
  "connect ev cb s = s\<lparr>callbacks := callbacks s @ [(ev, cb)]\<rparr>"

text \<open>Modelled from the spec: \<^verbatim>\<open>EventEmitter.unconnect\<close> removes the given callbacks.\<close>

definition unconnect :: "callback list \<Rightarrow> session \<Rightarrow> session" where
  "unconnect cbs s = s\<lparr>callbacks := filter (\<lambda>p. snd p \<notin> set cbs) (callbacks s)\<rparr>"

text \<open>An exception that leaves the call at once: the state is the one reached so far.\<close>

definition raise :: "error \<Rightarrow> session \<Rightarrow> outcome" where
  "raise e s = \<lparr>raised = Some e, post = s, trace = []\<rparr>"

subsection \<open>Public actions\<close>

text \<open>
  \<^verbatim>\<open>Session.open\<close>. The loader \<^verbatim>\<open>KwikModel(filename)\<close> reads a file and is a parameter.
\<close>

definition model_or_load ::
  "(string option \<Rightarrow> error + kwik_model) \<Rightarrow> string option \<Rightarrow> kwik_model option \<Rightarrow>
   error + kwik_model" where
  "model_or_load KwikModel fname mo = (case mo of None \<Rightarrow> KwikModel fname | Some m \<Rightarrow> Inr m)"

definition session_open ::
  "(string option \<Rightarrow> error + kwik_model) \<Rightarrow> string option \<Rightarrow> kwik_model option \<Rightarrow>
   session \<Rightarrow> outcome" where
  "session_open KwikModel fname mo s =
     (case model_or_load KwikModel fname mo of
        Inl e \<Rightarrow> raise e s
      | Inr m \<Rightarrow> emit Notify_open (s\<lparr>model := Some m, filename := fname\<rparr>))"

text \<open>\<^verbatim>\<open>Session.select\<close>\<close>

definition session_select :: "int list \<Rightarrow> session \<Rightarrow> outcome" where
  "session_select clusters s =
     (case selector s of
        None \<Rightarrow> raise AttributeError s
      | Some sel \<Rightarrow>
          emit Notify_select (s\<lparr>selector := Some (sel\<lparr>selected_clusters := clusters\<rparr>)\<rparr>))"

text \<open>\<^verbatim>\<open>Session.merge\<close>\<close>

definition session_merge :: "int list \<Rightarrow> session \<Rightarrow> outcome" where
  "session_merge clusters s =
     (case clustering s of
        None \<Rightarrow> raise AttributeError s
      | Some c \<Rightarrow>
          (case clustering_merge c clusters of
             Inl e \<Rightarrow> raise e s
           | Inr (up, c') \<Rightarrow> emit (Notify_cluster (Some up) None) (s\<lparr>clustering := Some c'\<rparr>)))"

text \<open>\<^verbatim>\<open>Session.split\<close>\<close>

definition session_split :: "int list \<Rightarrow> session \<Rightarrow> outcome" where
  "session_split spikes s =
     (case clustering s of
        None \<Rightarrow> raise AttributeError s
      | Some c \<Rightarrow>
          (case clustering_split c spikes of
             Inl e \<Rightarrow> raise e s
           | Inr (up, c') \<Rightarrow> emit (Notify_cluster (Some up) None) (s\<lparr>clustering := Some c'\<rparr>)))"

text \<open>
  \<^verbatim>\<open>Session.move\<close>. The metadata object of the session is the one of the model
  (\<^verbatim>\<open>on_open\<close> assigns it without a copy), so the change shows in both.
\<close>

definition session_move :: "int list \<Rightarrow> int \<Rightarrow> session \<Rightarrow> outcome" where
  "session_move clusters g s =
     (case cluster_metadata s of
        None \<Rightarrow> raise AttributeError s
      | Some md \<Rightarrow>
          (case set_group md clusters g of
             (up, md') \<Rightarrow>
               emit (Notify_cluster (Some up) None)
                 (s\<lparr>cluster_metadata := Some md',
                    model := map_option (\<lambda>m. m\<lparr>m_cluster_metadata := md'\<rparr>) (model s)\<rparr>)))"

definition restored :: "snapshot option \<Rightarrow> clustering option \<Rightarrow> clustering option" where
  "restored r co = (case r of None \<Rightarrow> co | Some snap \<Rightarrow> map_option (restore snap) co)"

text \<open>\<^verbatim>\<open>Session.undo\<close>\<close>

definition session_undo :: "session \<Rightarrow> outcome" where
  "session_undo s =
     (case global_history s of
        None \<Rightarrow> raise AttributeError s
      | Some h \<Rightarrow>
          (case gh_undo (clustering s) h of
             (up, h', r) \<Rightarrow>
               emit (Notify_cluster up (Some False))
                 (s\<lparr>global_history := Some h', clustering := restored r (clustering s)\<rparr>)))"

text \<open>\<^verbatim>\<open>Session.redo\<close>\<close>

definition session_redo :: "session \<Rightarrow> outcome" where
  "session_redo s =
     (case global_history s of
        None \<Rightarrow> raise AttributeError s
      | Some h \<Rightarrow>
          (case gh_redo (clustering s) h of
             (up, h', r) \<Rightarrow>
               emit (Notify_cluster up (Some False))
                 (s\<lparr>global_history := Some h', clustering := restored r (clustering s)\<rparr>)))"

text \<open>
  \<^verbatim>\<open>Session.show_waveforms\<close>: a new view, its three closures connected, then \<^verbatim>\<open>on_open()\<close>
  and \<^verbatim>\<open>on_select()\<close> called once directly.
\<close>

definition session_show_waveforms :: "session \<Rightarrow> outcome" where
  "session_show_waveforms s =
     (let v = length (views s);
          w = \<lparr>always_on_top = (backend s = Some ''pyqt4'' \<or> backend s = None),
               visual_spike_clusters = None, visual_cluster_metadata = None,
               visual_spike_ids = None, updates = 0\<rparr>;
          s1 = connect Ev_select (View_on_select v)
                 (connect Ev_cluster (View_on_cluster v)
                   (connect Ev_open (View_on_open v) (s\<lparr>views := views s @ [w]\<rparr>)))
      in case view_on_open v s1 of
           (Some e, s2) \<Rightarrow> raise e s2
         | (None, s2) \<Rightarrow>
             (case view_on_select v s2 of
                (e, s3) \<Rightarrow> \<lparr>raised = e, post = s3, trace = []\<rparr>))"

text \<open>The closure \<^verbatim>\<open>on_close\<close> of \<^verbatim>\<open>show_waveforms\<close>, run when the view is closed.\<close>

definition view_on_close :: "nat \<Rightarrow> session \<Rightarrow> session" where
  "view_on_close v s = unconnect [View_on_open v, View_on_cluster v, View_on_select v] s"

subsection \<open>Sessions in use\<close>

text \<open>
  What a user and the collaborators can do with a session, and the states that a new
  session gets into by it. A call that raises leaves the session as it is at that point.
\<close>

datatype command =
  Cmd_open "string option" "kwik_model option"
| Cmd_select "int list"
| Cmd_merge "int list"
| Cmd_split "int list"
| Cmd_move "int list" int
| Cmd_undo
| Cmd_redo
| Cmd_show_waveforms
| Cmd_close_view nat
| Cmd_connect event nat

fun exec :: "(string option \<Rightarrow> error + kwik_model) \<Rightarrow> command \<Rightarrow> session \<Rightarrow> outcome" where
  "exec K (Cmd_open fname mo) s = session_open K fname mo s"
| "exec K (Cmd_select clusters) s = session_select clusters s"
| "exec K (Cmd_merge clusters) s = session_merge clusters s"
| "exec K (Cmd_split spikes) s = session_split spikes s"
| "exec K (Cmd_move clusters g) s = session_move clusters g s"
| "exec K Cmd_undo s = session_undo s"
| "exec K Cmd_redo s = session_redo s"
| "exec K Cmd_show_waveforms s = session_show_waveforms s"
| "exec K (Cmd_close_view v) s = \<lparr>raised = None, post = view_on_close v s, trace = []\<rparr>"
| "exec K (Cmd_connect ev k) s = \<lparr>raised = None, post = connect ev (Observer k) s, trace = []\<rparr>"

inductive reachable :: "session \<Rightarrow> bool" where
  init: "reachable (Session b)"
| step: "reachable s \<Longrightarrow> reachable (post (exec K cmd s))"

text \<open>The states of a session on which no \<^verbatim>\<open>open\<close> has returned yet.\<close>

inductive never_opened :: "session \<Rightarrow> bool" where
  fresh: "never_opened (Session b)"
| failed_open: "never_opened s \<Longrightarrow> raised (session_open K fname mo s) \<noteq> None \<Longrightarrow>
     never_opened (post (session_open K fname mo s))"
| other: "never_opened s \<Longrightarrow> (\<forall>fname mo. cmd \<noteq> Cmd_open fname mo) \<Longrightarrow>
     never_opened (post (exec K cmd s))"

definition opened :: "session \<Rightarrow> bool" where
  "opened s \<longleftrightarrow>
     global_history s \<noteq> None \<and> clustering s \<noteq> None \<and> cluster_metadata s \<noteq> None \<and>
     selector s \<noteq> None"

fun is_mutation :: "command \<Rightarrow> bool" where
  "is_mutation (Cmd_merge clusters) = True"
| "is_mutation (Cmd_split spikes) = True"
| "is_mutation (Cmd_move clusters g) = True"
| "is_mutation cmd = False"

fun is_move :: "command \<Rightarrow> bool" where
  "is_move (Cmd_move clusters g) = True"
| "is_move cmd = False"

fun needs_open :: "command \<Rightarrow> bool" where
  "needs_open (Cmd_open fname mo) = False"
| "needs_open Cmd_show_waveforms = False"
| "needs_open (Cmd_close_view v) = False"
| "needs_open (Cmd_connect ev k) = False"
| "needs_open cmd = True"

text \<open>None of the attributes that \<^verbatim>\<open>on_open\<close> sets exists.\<close>

definition unopened :: "session \<Rightarrow> bool" where
  "unopened s \<longleftrightarrow>
     global_history s = None \<and> clustering s = None \<and> cluster_metadata s = None \<and>
     selector s = None"

text \<open>
  The deliveries in which \<^verbatim>\<open>on_cluster\<close> calls \<^verbatim>\<open>GlobalHistory.action\<close>: those of the
  session's callback with \<^verbatim>\<open>add_to_stack\<close> true or left out.
\<close>

fun records :: "trace_item \<Rightarrow> bool" where
  "records (Delivered Session_on_cluster (Notify_cluster up a)) = (a \<noteq> Some False)"
| "records (Delivered Session_on_cluster n) = True"
| "records t = False"

subsection \<open>A small dataset\<close>

text \<open>
  Four spikes, the first two in cluster 1 and the others in cluster 2, both clusters in
  group 0, handed to \<^verbatim>\<open>open\<close> as a model; no file is read.
\<close>

definition example_model :: kwik_model where
  "example_model = \<lparr>m_spike_clusters = [1, 1, 2, 2], m_cluster_metadata = [(1, 0), (2, 0)]\<rparr>"

definition no_file :: "string option \<Rightarrow> error + kwik_model" where
  "no_file fname = Inl LoadError"

definition example_session :: session where
  "example_session = post (session_open no_file None (Some example_model) (Session None))"

text \<open>
  A second dataset, and the example session after \<^verbatim>\<open>show_waveforms\<close> and with one more
  observer of \<^verbatim>\<open>open\<close>.
\<close>

definition other_model :: kwik_model where
  "other_model = \<lparr>m_spike_clusters = [5, 6, 6], m_cluster_metadata = [(5, 1)]\<rparr>"

definition watched_session :: session where
  "watched_session =
     post (exec no_file (Cmd_connect Ev_open 0) (post (exec no_file Cmd_show_waveforms example_session)))"

subsection \<open>Invariants of a session in use\<close>

text \<open>
  The callbacks that leave the session alone, the registrations that \<^verbatim>\<open>show_waveforms\<close>
  and the observers make, and what holds of every state a session gets into: its own two
  callbacks come first, the four attributes of \<^verbatim>\<open>on_open\<close> exist together, the allocator
  is above every id in the assignment and in the history, and the undo stack is never empty
  and its top stands for the current assignment.
\<close>

fun inert :: "callback \<Rightarrow> bool" where
  "inert (View_on_cluster v) = True"
| "inert (Observer k) = True"
| "inert cb = False"

fun reg_ok :: "event \<times> callback \<Rightarrow> bool" where
  "reg_ok (ev, View_on_open v) = (ev = Ev_open)"
| "reg_ok (ev, View_on_cluster v) = (ev = Ev_cluster)"
| "reg_ok (ev, View_on_select v) = (ev = Ev_select)"
| "reg_ok (ev, Observer k) = True"
| "reg_ok (ev, cb) = False"

definition callbacks_inv :: "session \<Rightarrow> bool" where
  "callbacks_inv s \<longleftrightarrow>
     take 2 (callbacks s) = [(Ev_open, Session_on_open), (Ev_cluster, Session_on_cluster)] \<and>
     list_all reg_ok (drop 2 (callbacks s))"

definition history_ok :: "global_history \<Rightarrow> clustering \<Rightarrow> bool" where
  "history_ok h c \<longleftrightarrow>
     (\<forall>k \<in> set (spike_clusters c). k < new_cluster_id c) \<and>
     (\<forall>e \<in> set (undo_stack h) \<union> set (redo_stack h).
        \<forall>k \<in> set (entry_state (Some c) e). k < new_cluster_id c) \<and>
     (case undo_stack h of
        [] \<Rightarrow> False
      | latest # below \<Rightarrow> entry_state (Some c) latest = spike_clusters c)"

definition session_inv :: "session \<Rightarrow> bool" where
  "session_inv s \<longleftrightarrow>
     callbacks_inv s \<and>
     (global_history s = None \<longrightarrow>
        model s = None \<and> clustering s = None \<and> cluster_metadata s = None \<and>
        selector s = None) \<and>
     (\<forall>h. global_history s = Some h \<longrightarrow>
        (\<exists>m c sel. model s = Some m \<and> clustering s = Some c \<and>
           cluster_metadata s = Some (m_cluster_metadata m) \<and> selector s = Some sel \<and>
           n_spikes_max sel = 100 \<and> history_ok h c))"

definition same_core :: "session \<Rightarrow> session \<Rightarrow> bool" where
  "same_core s s' \<longleftrightarrow>
     model s' = model s \<and> filename s' = filename s \<and> backend s' = backend s \<and>
     actions s' = actions s \<and> callbacks s' = callbacks s \<and>
     global_history s' = global_history s \<and> clustering s' = clustering s \<and>
     cluster_metadata s' = cluster_metadata s \<and> selector s' = selector s"

fun open_cb :: "callback \<Rightarrow> bool" where
  "open_cb (View_on_open v) = True"
| "open_cb (Observer k) = True"
| "open_cb cb = False"

fun select_cb :: "callback \<Rightarrow> bool" where
  "select_cb (View_on_select v) = True"
| "select_cb (Observer k) = True"
| "select_cb cb = False"

section \<open>Properties\<close>

subsection \<open>Notifications\<close>

lemma set_cluster_ids: "set (cluster_ids c) = set (spike_clusters c)"
  by (simp add: cluster_ids_def)

lemma deliver_inert:
  "list_all inert cbs \<Longrightarrow>
   deliver cbs n s = \<lparr>raised = None, post = s, trace = map (\<lambda>cb. Delivered cb n) cbs\<rparr>"
proof (induction cbs)
  case Nil
  then show ?case by simp
next
  case (Cons cb cbs)
  then show ?case by (cases cb) simp_all
qed

lemma callbacks_for_cluster:
  assumes "callbacks_inv s"
  shows "\<exists>cs. callbacks_for Ev_cluster s = Session_on_cluster # cs \<and> list_all inert cs"
proof -
  obtain rest where r: "callbacks s = (Ev_open, Session_on_open) # (Ev_cluster, Session_on_cluster) # rest"
    and ok: "list_all reg_ok rest"
    using assms unfolding callbacks_inv_def
    by (cases "callbacks s"; cases "tl (callbacks s)") auto
  have "list_all inert (map snd (filter (\<lambda>p. fst p = Ev_cluster) rest))"
    using ok
  proof (induction rest)
    case Nil
    then show ?case by simp
  next
    case (Cons p rest)
    obtain ev cb where "p = (ev, cb)" by (cases p)
    with Cons show ?case by (cases cb) auto
  qed
  then show ?thesis by (simp add: callbacks_for_def r)
qed

lemma same_core_refl: "same_core s s"
  by (simp add: same_core_def)

lemma same_core_trans: "same_core s s' \<Longrightarrow> same_core s' s'' \<Longrightarrow> same_core s s''"
  by (simp add: same_core_def)

lemma same_core_upd_view: "same_core s (upd_view v f s)"
  by (simp add: same_core_def upd_view_def)

lemma view_on_open_core: "same_core s (snd (view_on_open v s))"
  by (auto simp: view_on_open_def Let_def same_core_def upd_view_def split: option.splits)

lemma view_on_select_core: "same_core s (snd (view_on_select v s))"
  by (auto simp: view_on_select_def Let_def same_core_def upd_view_def split: option.splits)

lemma view_on_open_ok:
  "model s = None \<or> (clustering s \<noteq> None \<and> cluster_metadata s \<noteq> None) \<Longrightarrow>
   fst (view_on_open v s) = None"
  by (auto simp: view_on_open_def Let_def upd_view_def split: option.splits)

lemma view_on_select_ok:
  "selector s \<noteq> None \<Longrightarrow> model s \<noteq> None \<Longrightarrow> fst (view_on_select v s) = None"
  by (auto simp: view_on_select_def Let_def upd_view_def split: option.splits)

lemma callbacks_inv_split:
  assumes "callbacks_inv s"
  obtains rest where
    "callbacks s = (Ev_open, Session_on_open) # (Ev_cluster, Session_on_cluster) # rest"
    "list_all reg_ok rest"
  using assms unfolding callbacks_inv_def
  by (cases "callbacks s"; cases "tl (callbacks s)") auto

lemma reg_ok_open: "list_all reg_ok rest \<Longrightarrow>
   list_all open_cb (map snd (filter (\<lambda>p. fst p = Ev_open) rest))"
proof (induction rest)
  case Nil
  then show ?case by simp
next
  case (Cons p rest)
  obtain ev cb where "p = (ev, cb)" by (cases p)
  with Cons show ?case by (cases cb) auto
qed

lemma reg_ok_select: "list_all reg_ok rest \<Longrightarrow>
   list_all select_cb (map snd (filter (\<lambda>p. fst p = Ev_select) rest))"
proof (induction rest)
  case Nil
  then show ?case by simp
next
  case (Cons p rest)
  obtain ev cb where "p = (ev, cb)" by (cases p)
  with Cons show ?case by (cases cb) auto
qed

lemma callbacks_for_open:
  assumes "callbacks_inv s"
  shows "\<exists>cs. callbacks_for Ev_open s = Session_on_open # cs \<and> list_all open_cb cs"
proof -
  from assms obtain rest where
    r: "callbacks s = (Ev_open, Session_on_open) # (Ev_cluster, Session_on_cluster) # rest"
    and ok: "list_all reg_ok rest"
    by (rule callbacks_inv_split)
  from ok have "list_all open_cb (map snd (filter (\<lambda>p. fst p = Ev_open) rest))"
    by (rule reg_ok_open)
  then show ?thesis by (simp add: callbacks_for_def r)
qed

lemma callbacks_for_select:
  assumes "callbacks_inv s"
  shows "list_all select_cb (callbacks_for Ev_select s)"
proof -
  from assms obtain rest where
    r: "callbacks s = (Ev_open, Session_on_open) # (Ev_cluster, Session_on_cluster) # rest"
    and ok: "list_all reg_ok rest"
    by (rule callbacks_inv_split)
  from ok have "list_all select_cb (map snd (filter (\<lambda>p. fst p = Ev_select) rest))"
    by (rule reg_ok_select)
  then show ?thesis by (simp add: callbacks_for_def r)
qed

lemma deliver_open:
  "list_all open_cb cbs \<Longrightarrow>
   model s = None \<or> (clustering s \<noteq> None \<and> cluster_metadata s \<noteq> None) \<Longrightarrow>
   raised (deliver cbs n s) = None \<and> same_core s (post (deliver cbs n s)) \<and>
   trace (deliver cbs n s) = map (\<lambda>cb. Delivered cb n) cbs"
proof (induction cbs arbitrary: s)
  case Nil
  then show ?case by (simp add: same_core_refl)
next
  case (Cons cb cbs)
  show ?case
  proof (cases cb)
    case (View_on_open v)
    obtain e s' where r: "view_on_open v s = (e, s')" by (cases "view_on_open v s")
    from Cons.prems(2) have "fst (view_on_open v s) = None" by (rule view_on_open_ok)
    with r have e: "e = None" by simp
    have sc: "same_core s s'" using view_on_open_core [of s v] r by simp
    then have pre: "model s' = None \<or> (clustering s' \<noteq> None \<and> cluster_metadata s' \<noteq> None)"
      using Cons.prems(2) by (simp add: same_core_def)
    from Cons.prems(1) have "list_all open_cb cbs" by simp
    from Cons.IH [OF this pre] sc show ?thesis
      by (auto simp: View_on_open r e Let_def intro: same_core_trans)
  next
    case (Observer k)
    from Cons.prems(1) have "list_all open_cb cbs" by simp
    from Cons.IH [OF this Cons.prems(2)] show ?thesis
      by (simp add: Observer Let_def)
  qed (use Cons.prems(1) in simp_all)
qed

lemma deliver_select:
  "list_all select_cb cbs \<Longrightarrow> selector s \<noteq> None \<Longrightarrow> model s \<noteq> None \<Longrightarrow>
   raised (deliver cbs n s) = None \<and> same_core s (post (deliver cbs n s)) \<and>
   trace (deliver cbs n s) = map (\<lambda>cb. Delivered cb n) cbs"
proof (induction cbs arbitrary: s)
  case Nil
  then show ?case by (simp add: same_core_refl)
next
  case (Cons cb cbs)
  show ?case
  proof (cases cb)
    case (View_on_select v)
    obtain e s' where r: "view_on_select v s = (e, s')" by (cases "view_on_select v s")
    from Cons.prems(2,3) have "fst (view_on_select v s) = None" by (rule view_on_select_ok)
    with r have e: "e = None" by simp
    have sc: "same_core s s'" using view_on_select_core [of s v] r by simp
    then have pre: "selector s' \<noteq> None" "model s' \<noteq> None"
      using Cons.prems(2,3) by (simp_all add: same_core_def)
    from Cons.prems(1) have "list_all select_cb cbs" by simp
    from Cons.IH [OF this pre] sc show ?thesis
      by (auto simp: View_on_select r e Let_def intro: same_core_trans)
  next
    case (Observer k)
    from Cons.prems(1) have "list_all select_cb cbs" by simp
    from Cons.IH [OF this Cons.prems(2,3)] show ?thesis
      by (simp add: Observer Let_def)
  qed (use Cons.prems(1) in simp_all)
qed

lemma emit_cluster_record:
  assumes "callbacks_inv s" "global_history s = Some h" "clustering s = Some c"
  shows "emit (Notify_cluster up None) s =
          \<lparr>raised = None, post = s\<lparr>global_history := Some (action c h)\<rparr>,
           trace = Emitted (Notify_cluster up None) #
             map (\<lambda>cb. Delivered cb (Notify_cluster up None)) (callbacks_for Ev_cluster s)\<rparr>"
proof -
  from callbacks_for_cluster [OF assms(1)] obtain cs where
    cs: "callbacks_for Ev_cluster s = Session_on_cluster # cs" "list_all inert cs" by blast
  show ?thesis
    by (simp add: emit_def cs on_cluster_def assms(2,3) Let_def deliver_inert [OF cs(2)])
qed

lemma emit_cluster_replay:
  assumes "callbacks_inv s"
  shows "emit (Notify_cluster up (Some False)) s =
          \<lparr>raised = None, post = s,
           trace = Emitted (Notify_cluster up (Some False)) #
             map (\<lambda>cb. Delivered cb (Notify_cluster up (Some False))) (callbacks_for Ev_cluster s)\<rparr>"
proof -
  from callbacks_for_cluster [OF assms(1)] obtain cs where
    cs: "callbacks_for Ev_cluster s = Session_on_cluster # cs" "list_all inert cs" by blast
  show ?thesis
    by (simp add: emit_def cs on_cluster_def Let_def deliver_inert [OF cs(2)])
qed

lemma on_open_model:
  "model s = Some m \<Longrightarrow>
   on_open s =
     (None, s\<lparr>global_history := Some GlobalHistory,
               clustering := Some (Clustering (m_spike_clusters m)),
               cluster_metadata := Some (m_cluster_metadata m),
               selector := Some (Selector (m_spike_clusters m) 100)\<rparr>)"
  by (simp add: on_open_def Let_def)

lemma emit_open:
  assumes "callbacks_inv s" "model s = Some m"
  shows "raised (emit Notify_open s) = None \<and>
         same_core (snd (on_open s)) (post (emit Notify_open s)) \<and>
         trace (emit Notify_open s) =
           Emitted Notify_open # map (\<lambda>cb. Delivered cb Notify_open) (callbacks_for Ev_open s)"
proof -
  from callbacks_for_open [OF assms(1)] obtain cs where
    cs: "callbacks_for Ev_open s = Session_on_open # cs" "list_all open_cb cs" by blast
  let ?s1 = "snd (on_open s)"
  have pre: "model ?s1 = None \<or> (clustering ?s1 \<noteq> None \<and> cluster_metadata ?s1 \<noteq> None)"
    by (simp add: on_open_model [OF assms(2)])
  from deliver_open [OF cs(2) pre, of Notify_open] show ?thesis
    by (simp add: emit_def cs on_open_model [OF assms(2)] Let_def)
qed

lemma emit_select:
  assumes "callbacks_inv s" "selector s \<noteq> None" "model s \<noteq> None"
  shows "raised (emit Notify_select s) = None \<and>
         same_core s (post (emit Notify_select s)) \<and>
         trace (emit Notify_select s) =
           Emitted Notify_select # map (\<lambda>cb. Delivered cb Notify_select) (callbacks_for Ev_select s)"
  using deliver_select [OF callbacks_for_select [OF assms(1)] assms(2,3), of Notify_select]
  by (simp add: emit_def Let_def)

subsection \<open>The invariant is kept\<close>

lemma session_inv_core: "same_core s s' \<Longrightarrow> session_inv s \<Longrightarrow> session_inv s'"
  by (simp add: same_core_def session_inv_def callbacks_inv_def)

lemma fold_max_ge: "(k::int) \<in> set (x # xs) \<Longrightarrow> k \<le> fold max xs x"
proof -
  assume "k \<in> set (x # xs)"
  then have "k \<le> Max (set (x # xs))" by (intro Max_ge) simp_all
  then show ?thesis by (simp only: Max.set_eq_fold)
qed

lemma Clustering_fresh: "k \<in> set sc \<Longrightarrow> k < new_cluster_id (Clustering sc)"
proof (cases sc)
  case Nil
  assume "k \<in> set sc"
  with Nil show ?thesis by simp
next
  case (Cons x xs)
  assume "k \<in> set sc"
  with Cons have "k \<le> fold max xs x" using fold_max_ge [of k x xs] by simp
  then show ?thesis by (simp add: Clustering_def Cons)
qed

lemma Clustering_spikes [simp]: "spike_clusters (Clustering sc) = sc"
  by (simp add: Clustering_def)

lemma Clustering_base [simp]: "spike_clusters_base (Clustering sc) = sc"
  by (simp add: Clustering_def)

lemma inv_init: "session_inv (Session b)"
  by (simp add: session_inv_def Session_def callbacks_inv_def)

lemma inv_open:
  assumes "session_inv s"
  shows "session_inv (post (session_open K fname mo s))"
proof (cases "model_or_load K fname mo")
  case (Inl e)
  then show ?thesis using assms by (simp add: session_open_def raise_def)
next
  case (Inr m)
  let ?s1 = "s\<lparr>model := Some m, filename := fname\<rparr>"
  have cb: "callbacks_inv ?s1" using assms by (simp add: session_inv_def callbacks_inv_def)
  have m: "model ?s1 = Some m" by simp
  have inv1: "session_inv (snd (on_open ?s1))"
    using cb
    by (simp add: on_open_model [OF m] session_inv_def callbacks_inv_def history_ok_def
        GlobalHistory_def Selector_def Clustering_fresh)
  from emit_open [OF cb m]
  have "same_core (snd (on_open ?s1)) (post (emit Notify_open ?s1))" by simp
  from session_inv_core [OF this inv1] show ?thesis
    by (simp add: session_open_def Inr)
qed

lemma inv_select:
  assumes "session_inv s"
  shows "session_inv (post (session_select clusters s))"
proof (cases "selector s")
  case None
  then show ?thesis using assms by (simp add: session_select_def raise_def)
next
  case (Some sel)
  let ?s1 = "s\<lparr>selector := Some (sel\<lparr>selected_clusters := clusters\<rparr>)\<rparr>"
  have inv1: "session_inv ?s1"
    using assms Some
    by (auto simp: session_inv_def callbacks_inv_def split: option.splits)
  then have cb: "callbacks_inv ?s1" by (simp add: session_inv_def)
  have "model ?s1 \<noteq> None" "selector ?s1 \<noteq> None"
    using assms Some by (auto simp: session_inv_def split: option.splits)
  from emit_select [OF cb this(2,1)]
  have "same_core ?s1 (post (emit Notify_select ?s1))" by simp
  from session_inv_core [OF this inv1] show ?thesis
    by (simp add: session_select_def Some)
qed

lemma entry_state_base:
  "spike_clusters_base c' = spike_clusters_base c \<Longrightarrow>
   entry_state (Some c') e = entry_state (Some c) e"
  by (cases e) simp_all

lemma history_ok_record:
  assumes "history_ok h c"
    and fresh: "\<forall>k \<in> set (spike_clusters c'). k < new_cluster_id c'"
    and mono: "new_cluster_id c \<le> new_cluster_id c'"
    and base: "spike_clusters_base c' = spike_clusters_base c"
  shows "history_ok (action c' h) c'"
proof -
  have "k < new_cluster_id c'"
    if "e \<in> set (undo_stack h) \<union> set (redo_stack h)" "k \<in> set (entry_state (Some c') e)"
    for e k
  proof -
    from that(2) have "k \<in> set (entry_state (Some c) e)"
      by (simp add: entry_state_base [OF base])
    with assms(1) that(1) have "k < new_cluster_id c" by (auto simp: history_ok_def)
    with mono show ?thesis by simp
  qed
  with fresh show ?thesis
    by (auto simp: history_ok_def action_def capture_def)
qed

lemma inv_record:
  assumes "session_inv s" "global_history s = Some h" "clustering s = Some c"
    and fresh: "\<forall>k \<in> set (spike_clusters c'). k < new_cluster_id c'"
    and mono: "new_cluster_id c \<le> new_cluster_id c'"
    and base: "spike_clusters_base c' = spike_clusters_base c"
  shows "session_inv (s\<lparr>clustering := Some c', global_history := Some (action c' h)\<rparr>)"
proof -
  have "history_ok h c" using assms(1-3) by (auto simp: session_inv_def)
  then have "history_ok (action c' h) c'"
    using fresh mono base by (rule history_ok_record)
  then show ?thesis
    using assms(1-3) by (auto simp: session_inv_def callbacks_inv_def)
qed

lemma merge_fresh:
  assumes "clustering_merge c clusters = Inr (up, c')"
    and "\<forall>k \<in> set (spike_clusters c). k < new_cluster_id c"
  shows "(\<forall>k \<in> set (spike_clusters c'). k < new_cluster_id c') \<and>
         new_cluster_id c \<le> new_cluster_id c' \<and>
         spike_clusters_base c' = spike_clusters_base c"
  using assms by (fastforce simp: clustering_merge_def Let_def split: if_splits)

lemma split_fresh:
  assumes "clustering_split c spikes = Inr (up, c')"
    and "\<forall>k \<in> set (spike_clusters c). k < new_cluster_id c"
  shows "(\<forall>k \<in> set (spike_clusters c'). k < new_cluster_id c') \<and>
         new_cluster_id c \<le> new_cluster_id c' \<and>
         spike_clusters_base c' = spike_clusters_base c"
proof -
  from assms(1) have c': "spike_clusters c' =
      map (\<lambda>i. if int i \<in> set spikes then new_cluster_id c else spike_clusters c ! i)
        [0..<length (spike_clusters c)]" "new_cluster_id c' = new_cluster_id c + 1"
      "spike_clusters_base c' = spike_clusters_base c"
    by (auto simp: clustering_split_def Let_def split: if_splits)
  have "k < new_cluster_id c + 1" if "k \<in> set (spike_clusters c')" for k
  proof -
    from that obtain i where "i < length (spike_clusters c)"
      "k = (if int i \<in> set spikes then new_cluster_id c else spike_clusters c ! i)"
      by (auto simp: c'(1))
    then have "k = new_cluster_id c \<or> k \<in> set (spike_clusters c)"
      by (cases "int i \<in> set spikes") simp_all
    then show ?thesis
    proof
      assume "k = new_cluster_id c"
      then show ?thesis by simp
    next
      assume "k \<in> set (spike_clusters c)"
      with assms(2) have "k < new_cluster_id c" by blast
      then show ?thesis by simp
    qed
  qed
  then show ?thesis by (simp add: c'(2,3))
qed

lemma inv_opened:
  assumes "session_inv s" "clustering s = Some c"
  obtains h where "global_history s = Some h" "history_ok h c" "callbacks_inv s"
  using assms by (cases "global_history s") (auto simp: session_inv_def)

lemma merge_outcome:
  assumes "session_inv s" "clustering s = Some c" "global_history s = Some h"
    "clustering_merge c clusters = Inr (up, c')"
  shows "session_merge clusters s =
          \<lparr>raised = None,
           post = s\<lparr>clustering := Some c', global_history := Some (action c' h)\<rparr>,
           trace = Emitted (Notify_cluster (Some up) None) #
             map (\<lambda>cb. Delivered cb (Notify_cluster (Some up) None)) (callbacks_for Ev_cluster s)\<rparr>"
proof -
  let ?s1 = "s\<lparr>clustering := Some c'\<rparr>"
  have cb: "callbacks_inv ?s1" using assms(1) by (simp add: session_inv_def callbacks_inv_def)
  have "emit (Notify_cluster (Some up) None) ?s1 =
      \<lparr>raised = None, post = ?s1\<lparr>global_history := Some (action c' h)\<rparr>,
       trace = Emitted (Notify_cluster (Some up) None) #
         map (\<lambda>cb. Delivered cb (Notify_cluster (Some up) None)) (callbacks_for Ev_cluster ?s1)\<rparr>"
    by (rule emit_cluster_record [OF cb]) (simp_all add: assms(3))
  then show ?thesis
    by (simp add: session_merge_def assms(2,4) callbacks_for_def)
qed

lemma split_outcome:
  assumes "session_inv s" "clustering s = Some c" "global_history s = Some h"
    "clustering_split c spikes = Inr (up, c')"
  shows "session_split spikes s =
          \<lparr>raised = None,
           post = s\<lparr>clustering := Some c', global_history := Some (action c' h)\<rparr>,
           trace = Emitted (Notify_cluster (Some up) None) #
             map (\<lambda>cb. Delivered cb (Notify_cluster (Some up) None)) (callbacks_for Ev_cluster s)\<rparr>"
proof -
  let ?s1 = "s\<lparr>clustering := Some c'\<rparr>"
  have cb: "callbacks_inv ?s1" using assms(1) by (simp add: session_inv_def callbacks_inv_def)
  have "emit (Notify_cluster (Some up) None) ?s1 =
      \<lparr>raised = None, post = ?s1\<lparr>global_history := Some (action c' h)\<rparr>,
       trace = Emitted (Notify_cluster (Some up) None) #
         map (\<lambda>cb. Delivered cb (Notify_cluster (Some up) None)) (callbacks_for Ev_cluster ?s1)\<rparr>"
    by (rule emit_cluster_record [OF cb]) (simp_all add: assms(3))
  then show ?thesis
    by (simp add: session_split_def assms(2,4) callbacks_for_def)
qed

lemma move_outcome:
  assumes "session_inv s" "clustering s = Some c" "global_history s = Some h"
    "cluster_metadata s = Some md" "set_group md clusters g = (up, md')"
  shows "session_move clusters g s =
          \<lparr>raised = None,
           post = s\<lparr>cluster_metadata := Some md',
                    model := map_option (\<lambda>m. m\<lparr>m_cluster_metadata := md'\<rparr>) (model s),
                    global_history := Some (action c h)\<rparr>,
           trace = Emitted (Notify_cluster (Some up) None) #
             map (\<lambda>cb. Delivered cb (Notify_cluster (Some up) None)) (callbacks_for Ev_cluster s)\<rparr>"
proof -
  let ?s1 = "s\<lparr>cluster_metadata := Some md',
                model := map_option (\<lambda>m. m\<lparr>m_cluster_metadata := md'\<rparr>) (model s)\<rparr>"
  have cb: "callbacks_inv ?s1" using assms(1) by (simp add: session_inv_def callbacks_inv_def)
  have "emit (Notify_cluster (Some up) None) ?s1 =
      \<lparr>raised = None, post = ?s1\<lparr>global_history := Some (action c h)\<rparr>,
       trace = Emitted (Notify_cluster (Some up) None) #
         map (\<lambda>cb. Delivered cb (Notify_cluster (Some up) None)) (callbacks_for Ev_cluster ?s1)\<rparr>"
    by (rule emit_cluster_record [OF cb]) (simp_all add: assms(2,3))
  then show ?thesis
    by (simp add: session_move_def assms(4,5) callbacks_for_def)
qed

lemma replay_outcome:
  assumes "session_inv s" "global_history s = Some h"
  shows "session_undo s =
          (case gh_undo (clustering s) h of (up, h', r) \<Rightarrow>
            \<lparr>raised = None,
             post = s\<lparr>global_history := Some h', clustering := restored r (clustering s)\<rparr>,
             trace = Emitted (Notify_cluster up (Some False)) #
               map (\<lambda>cb. Delivered cb (Notify_cluster up (Some False)))
                 (callbacks_for Ev_cluster s)\<rparr>)"
    and "session_redo s =
          (case gh_redo (clustering s) h of (up, h', r) \<Rightarrow>
            \<lparr>raised = None,
             post = s\<lparr>global_history := Some h', clustering := restored r (clustering s)\<rparr>,
             trace = Emitted (Notify_cluster up (Some False)) #
               map (\<lambda>cb. Delivered cb (Notify_cluster up (Some False)))
                 (callbacks_for Ev_cluster s)\<rparr>)"
proof -
  have cb: "\<And>h' co. callbacks_inv (s\<lparr>global_history := Some h', clustering := co\<rparr>)"
    using assms(1) by (simp add: session_inv_def callbacks_inv_def)
  show "session_undo s =
          (case gh_undo (clustering s) h of (up, h', r) \<Rightarrow>
            \<lparr>raised = None,
             post = s\<lparr>global_history := Some h', clustering := restored r (clustering s)\<rparr>,
             trace = Emitted (Notify_cluster up (Some False)) #
               map (\<lambda>cb. Delivered cb (Notify_cluster up (Some False)))
                 (callbacks_for Ev_cluster s)\<rparr>)"
    by (simp add: session_undo_def assms(2) emit_cluster_replay [OF cb] callbacks_for_def
        split: prod.splits)
  show "session_redo s =
          (case gh_redo (clustering s) h of (up, h', r) \<Rightarrow>
            \<lparr>raised = None,
             post = s\<lparr>global_history := Some h', clustering := restored r (clustering s)\<rparr>,
             trace = Emitted (Notify_cluster up (Some False)) #
               map (\<lambda>cb. Delivered cb (Notify_cluster up (Some False)))
                 (callbacks_for Ev_cluster s)\<rparr>)"
    by (simp add: session_redo_def assms(2) emit_cluster_replay [OF cb] callbacks_for_def
        split: prod.splits)
qed

lemma inv_merge:
  assumes "session_inv s"
  shows "session_inv (post (session_merge clusters s))"
proof (cases "clustering s")
  case None
  then show ?thesis using assms by (simp add: session_merge_def raise_def)
next
  case (Some c)
  from assms Some obtain h where h: "global_history s = Some h" "history_ok h c"
    by (rule inv_opened)
  show ?thesis
  proof (cases "clustering_merge c clusters")
    case (Inl e)
    then show ?thesis using assms Some by (simp add: session_merge_def raise_def)
  next
    case (Inr p)
    obtain up c' where p: "p = (up, c')" by (cases p)
    from h(2) have "\<forall>k \<in> set (spike_clusters c). k < new_cluster_id c"
      by (simp add: history_ok_def)
    from merge_fresh [OF Inr [unfolded p] this]
    have "session_inv (s\<lparr>clustering := Some c', global_history := Some (action c' h)\<rparr>)"
      by (intro inv_record [OF assms h(1) Some]) simp_all
    then show ?thesis
      by (simp add: merge_outcome [OF assms Some h(1) Inr [unfolded p] ])
  qed
qed

lemma inv_split:
  assumes "session_inv s"
  shows "session_inv (post (session_split spikes s))"
proof (cases "clustering s")
  case None
  then show ?thesis using assms by (simp add: session_split_def raise_def)
next
  case (Some c)
  from assms Some obtain h where h: "global_history s = Some h" "history_ok h c"
    by (rule inv_opened)
  show ?thesis
  proof (cases "clustering_split c spikes")
    case (Inl e)
    then show ?thesis using assms Some by (simp add: session_split_def raise_def)
  next
    case (Inr p)
    obtain up c' where p: "p = (up, c')" by (cases p)
    from h(2) have "\<forall>k \<in> set (spike_clusters c). k < new_cluster_id c"
      by (simp add: history_ok_def)
    from split_fresh [OF Inr [unfolded p] this]
    have "session_inv (s\<lparr>clustering := Some c', global_history := Some (action c' h)\<rparr>)"
      by (intro inv_record [OF assms h(1) Some]) simp_all
    then show ?thesis
      by (simp add: split_outcome [OF assms Some h(1) Inr [unfolded p] ])
  qed
qed

lemma inv_move:
  assumes "session_inv s"
  shows "session_inv (post (session_move clusters g s))"
proof (cases "cluster_metadata s")
  case None
  then show ?thesis using assms by (simp add: session_move_def raise_def)
next
  case (Some md)
  from assms Some obtain h where h: "global_history s = Some h"
    by (cases "global_history s") (auto simp: session_inv_def)
  with assms obtain c where c: "clustering s = Some c" "history_ok h c"
    by (auto simp: session_inv_def)
  obtain up md' where sg: "set_group md clusters g = (up, md')"
    by (cases "set_group md clusters g")
  have "history_ok (action c h) c"
    using c(2) by (rule history_ok_record) (use c(2) in \<open>simp_all add: history_ok_def\<close>)
  then have "session_inv (s\<lparr>cluster_metadata := Some md',
        model := map_option (\<lambda>m. m\<lparr>m_cluster_metadata := md'\<rparr>) (model s),
        global_history := Some (action c h)\<rparr>)"
    using assms h c(1) by (auto simp: session_inv_def callbacks_inv_def)
  then show ?thesis
    by (simp add: move_outcome [OF assms c(1) h Some sg])
qed

lemma history_ok_restore:
  assumes "history_ok h c" "undo_stack h' \<noteq> []"
    and "set (undo_stack h') \<union> set (redo_stack h') \<subseteq> set (undo_stack h) \<union> set (redo_stack h)"
  shows "history_ok h' (restore (entry_state (Some c) (hd (undo_stack h'))) c)"
proof -
  let ?c' = "restore (entry_state (Some c) (hd (undo_stack h'))) c"
  have base: "spike_clusters_base ?c' = spike_clusters_base c" by (simp add: restore_def)
  have new: "new_cluster_id ?c' = new_cluster_id c" by (simp add: restore_def)
  have low: "k < new_cluster_id c"
    if "e \<in> set (undo_stack h') \<union> set (redo_stack h')" "k \<in> set (entry_state (Some c) e)"
    for e k
    using assms(1,3) that by (auto simp: history_ok_def)
  have "hd (undo_stack h') \<in> set (undo_stack h') \<union> set (redo_stack h')"
    using assms(2) by simp
  then have fresh: "\<forall>k \<in> set (spike_clusters ?c'). k < new_cluster_id ?c'"
    using low by (auto simp: restore_def)
  have top: "entry_state (Some ?c') (hd (undo_stack h')) = spike_clusters ?c'"
    by (simp add: entry_state_base [OF base]) (simp add: restore_def)
  have low': "\<forall>e \<in> set (undo_stack h') \<union> set (redo_stack h').
      \<forall>k \<in> set (entry_state (Some ?c') e). k < new_cluster_id ?c'"
    using low by (simp add: entry_state_base [OF base] new)
  have top': "case undo_stack h' of [] \<Rightarrow> False
      | latest # below \<Rightarrow> entry_state (Some ?c') latest = spike_clusters ?c'"
    using top assms(2) by (cases "undo_stack h'") simp_all
  from fresh low' top' show ?thesis
    unfolding history_ok_def by blast
qed

lemma gh_undo_ok:
  assumes "history_ok h c" "gh_undo (Some c) h = (up, h', r)"
  shows "\<exists>c'. restored r (Some c) = Some c' \<and> history_ok h' c'"
proof (cases "undo_stack h")
  case Nil
  with assms show ?thesis by (simp add: gh_undo_def restored_def)
next
  case (Cons latest below)
  show ?thesis
  proof (cases below)
    case Nil
    with Cons assms show ?thesis by (simp add: gh_undo_def restored_def)
  next
    case (Cons b rest)
    with \<open>undo_stack h = latest # below\<close> assms(2)
    have h': "h' = \<lparr>undo_stack = b # rest, redo_stack = latest # redo_stack h\<rparr>"
      and r: "r = Some (entry_state (Some c) b)"
      by (simp_all add: gh_undo_def)
    have "history_ok h' (restore (entry_state (Some c) (hd (undo_stack h'))) c)"
      by (rule history_ok_restore [OF assms(1)])
        (use Cons \<open>undo_stack h = latest # below\<close> in \<open>auto simp: h'\<close>)
    then show ?thesis by (simp add: r restored_def h')
  qed
qed

lemma gh_redo_ok:
  assumes "history_ok h c" "gh_redo (Some c) h = (up, h', r)"
  shows "\<exists>c'. restored r (Some c) = Some c' \<and> history_ok h' c'"
proof (cases "redo_stack h")
  case Nil
  with assms show ?thesis by (simp add: gh_redo_def restored_def)
next
  case (Cons entry rest)
  with assms(2)
  have h': "h' = \<lparr>undo_stack = entry # undo_stack h, redo_stack = rest\<rparr>"
    and r: "r = Some (entry_state (Some c) entry)"
    by (simp_all add: gh_redo_def)
  have "history_ok h' (restore (entry_state (Some c) (hd (undo_stack h'))) c)"
    by (rule history_ok_restore [OF assms(1)]) (use Cons in \<open>auto simp: h'\<close>)
  then show ?thesis by (simp add: r restored_def h')
qed

lemma inv_replace:
  assumes "session_inv s" "global_history s = Some h" "clustering s = Some c"
    "history_ok h' c'"
  shows "session_inv (s\<lparr>global_history := Some h', clustering := Some c'\<rparr>)"
  using assms by (auto simp: session_inv_def callbacks_inv_def)

lemma inv_undo:
  assumes "session_inv s"
  shows "session_inv (post (session_undo s))"
proof (cases "global_history s")
  case None
  then show ?thesis using assms by (simp add: session_undo_def raise_def)
next
  case (Some h)
  with assms obtain c where c: "clustering s = Some c" "history_ok h c"
    by (auto simp: session_inv_def)
  obtain up h' r where u: "gh_undo (Some c) h = (up, h', r)" by (cases "gh_undo (Some c) h")
  from gh_undo_ok [OF c(2) u] obtain c' where
    c': "restored r (Some c) = Some c'" "history_ok h' c'" by blast
  from inv_replace [OF assms Some c(1) c'(2)] show ?thesis
    by (simp add: replay_outcome(1) [OF assms Some] u c(1) c'(1))
qed

lemma inv_redo:
  assumes "session_inv s"
  shows "session_inv (post (session_redo s))"
proof (cases "global_history s")
  case None
  then show ?thesis using assms by (simp add: session_redo_def raise_def)
next
  case (Some h)
  with assms obtain c where c: "clustering s = Some c" "history_ok h c"
    by (auto simp: session_inv_def)
  obtain up h' r where u: "gh_redo (Some c) h = (up, h', r)" by (cases "gh_redo (Some c) h")
  from gh_redo_ok [OF c(2) u] obtain c' where
    c': "restored r (Some c) = Some c'" "history_ok h' c'" by blast
  from inv_replace [OF assms Some c(1) c'(2)] show ?thesis
    by (simp add: replay_outcome(2) [OF assms Some] u c(1) c'(1))
qed

lemma inv_connect:
  assumes "session_inv s" "reg_ok (ev, cb)"
  shows "session_inv (connect ev cb s)"
proof -
  from assms(1) have "callbacks_inv s" by (simp add: session_inv_def)
  then obtain rest where
    r: "callbacks s = (Ev_open, Session_on_open) # (Ev_cluster, Session_on_cluster) # rest"
    and ok: "list_all reg_ok rest"
    by (rule callbacks_inv_split)
  then have "callbacks_inv (connect ev cb s)"
    using assms(2) by (simp add: callbacks_inv_def connect_def)
  then show ?thesis using assms(1) by (simp add: session_inv_def connect_def)
qed

lemma inv_views: "session_inv s \<Longrightarrow> session_inv (s\<lparr>views := vs\<rparr>)"
  by (simp add: session_inv_def callbacks_inv_def)

lemma inv_show_waveforms:
  assumes "session_inv s"
  shows "session_inv (post (session_show_waveforms s))"
proof -
  define v where "v = length (views s)"
  define w where "w = \<lparr>always_on_top = (backend s = Some ''pyqt4'' \<or> backend s = None),
      visual_spike_clusters = None, visual_cluster_metadata = None,
      visual_spike_ids = None, updates = 0\<rparr>"
  define s1 where "s1 = connect Ev_select (View_on_select v)
      (connect Ev_cluster (View_on_cluster v)
        (connect Ev_open (View_on_open v) (s\<lparr>views := views s @ [w]\<rparr>)))"
  have inv1: "session_inv s1"
    unfolding s1_def using assms by (intro inv_connect inv_views) simp_all
  obtain e2 s2 where r2: "view_on_open v s1 = (e2, s2)" by (cases "view_on_open v s1")
  obtain e3 s3 where r3: "view_on_select v s2 = (e3, s3)" by (cases "view_on_select v s2")
  have c2: "same_core s1 s2" using view_on_open_core [of s1 v] r2 by simp
  have c3: "same_core s2 s3" using view_on_select_core [of s2 v] r3 by simp
  have inv2: "session_inv s2" by (rule session_inv_core [OF c2 inv1])
  have inv3: "session_inv s3" by (rule session_inv_core [OF c3 inv2])
  have "post (session_show_waveforms s) = s2 \<or> post (session_show_waveforms s) = s3"
    unfolding session_show_waveforms_def Let_def
    using r2 r3 by (cases e2) (simp_all add: v_def [symmetric] w_def [symmetric] s1_def [symmetric] raise_def)
  with inv2 inv3 show ?thesis by auto
qed

lemma inv_close_view:
  assumes "session_inv s"
  shows "session_inv (view_on_close v s)"
proof -
  from assms have "callbacks_inv s" by (simp add: session_inv_def)
  then obtain rest where
    r: "callbacks s = (Ev_open, Session_on_open) # (Ev_cluster, Session_on_cluster) # rest"
    and ok: "list_all reg_ok rest"
    by (rule callbacks_inv_split)
  then have "callbacks_inv (view_on_close v s)"
    by (simp add: callbacks_inv_def view_on_close_def unconnect_def list_all_iff)
  then show ?thesis
    using assms by (simp add: session_inv_def view_on_close_def unconnect_def)
qed

lemma reachable_inv: "reachable s \<Longrightarrow> session_inv s"
proof (induction rule: reachable.induct)
  case (init b)
  show ?case by (rule inv_init)
next
  case (step s K cmd)
  then show ?case
    by (cases cmd)
      (simp_all add: inv_open inv_select inv_merge inv_split inv_move inv_undo inv_redo
        inv_show_waveforms inv_close_view inv_connect)
qed

subsection \<open>The example session\<close>

lemma example_session_eq:
  "example_session =
     \<lparr>model = Some example_model, filename = None, backend = None,
      actions =
        [(''open'', ''Open''), (''select'', ''Select clusters''), (''merge'', ''Merge''),
         (''split'', ''Split''), (''move'', ''Move clusters to a group''),
         (''undo'', ''Undo''), (''redo'', ''Redo''),
         (''show_waveforms'', ''Show waveforms''), (''show_clusters'', ''Show clusters'')],
      callbacks = [(Ev_open, Session_on_open), (Ev_cluster, Session_on_cluster)],
      global_history = Some \<lparr>undo_stack = [Baseline],
        redo_stack = []\<rparr>,
      clustering = Some \<lparr>spike_clusters = [1, 1, 2, 2], new_cluster_id = 3,
        spike_clusters_base = [1, 1, 2, 2]\<rparr>,
      cluster_metadata = Some [(1, 0), (2, 0)],
      selector =
        Some \<lparr>sel_spike_clusters = [1, 1, 2, 2], n_spikes_max = 100, selected_clusters = []\<rparr>,
      views = []\<rparr>"
  by (simp add: example_session_def session_open_def model_or_load_def example_model_def Session_def emit_def
      callbacks_for_def on_open_def Let_def Clustering_def Selector_def GlobalHistory_def)

lemma example_session_reachable: "reachable example_session"
  unfolding example_session_def
  using reachable.step [OF reachable.init, of no_file "Cmd_open None (Some example_model)" None]
  by simp

lemmas session_eval =
  session_select_def session_merge_def session_split_def session_move_def session_undo_def
  session_redo_def emit_def callbacks_for_def on_cluster_def action_def capture_def
  restored_def restore_def gh_undo_def gh_redo_def net_difference_def clustering_merge_def
  Clustering_def Selector_def GlobalHistory_def
  clustering_split_def set_group_def raise_def Let_def example_model_def

lemma merged_session_eq:
  "session_merge [1, 2] example_session =
     \<lparr>raised = None,
      post = example_session
        \<lparr>clustering := Some \<lparr>spike_clusters = [3, 3, 3, 3], new_cluster_id = 4,
        spike_clusters_base = [1, 1, 2, 2]\<rparr>,
         global_history := Some \<lparr>undo_stack = [Snapshot [3, 3, 3, 3], Baseline],
        redo_stack = []\<rparr>\<rparr>,
      trace =
        [Emitted (Notify_cluster (Some \<lparr>removed = {1, 2}, added = {3}, selected = {3}\<rparr>) None),
         Delivered Session_on_cluster
           (Notify_cluster (Some \<lparr>removed = {1, 2}, added = {3}, selected = {3}\<rparr>) None)]\<rparr>"
  by (simp add: example_session_eq session_eval)

subsection \<open>Malformed arguments\<close>

text \<open>
  C4. On a session that has been opened, a merge of fewer than two distinct cluster ids or
  of an id that is not in use, and a split of no spikes or of an unknown spike id, raise
  \<open>InvalidOperation\<close> to the caller, leave the whole session as it was and announce
  nothing.
\<close>

theorem malformed_arguments_rejected:
  assumes "clustering s = Some c"
  shows "(card (set clusters) < 2 \<or> \<not> set clusters \<subseteq> set (cluster_ids c) \<longrightarrow>
            session_merge clusters s = \<lparr>raised = Some InvalidOperation, post = s, trace = []\<rparr>) \<and>
         (spikes = [] \<or> (\<exists>i \<in> set spikes. i < 0 \<or> int (length (spike_clusters c)) \<le> i) \<longrightarrow>
            session_split spikes s = \<lparr>raised = Some InvalidOperation, post = s, trace = []\<rparr>)"
  using assms
  by (simp add: session_merge_def session_split_def clustering_merge_def clustering_split_def
      raise_def set_cluster_ids)

theorem malformed_arguments_rejected_witness:
  "clustering example_session = Some \<lparr>spike_clusters = [1, 1, 2, 2], new_cluster_id = 3,
        spike_clusters_base = [1, 1, 2, 2]\<rparr> \<and>
   session_merge [1, 1] example_session =
     \<lparr>raised = Some InvalidOperation, post = example_session, trace = []\<rparr> \<and>
   session_merge [1, 7] example_session =
     \<lparr>raised = Some InvalidOperation, post = example_session, trace = []\<rparr> \<and>
   session_split [] example_session =
     \<lparr>raised = Some InvalidOperation, post = example_session, trace = []\<rparr> \<and>
   session_split [0, 4] example_session =
     \<lparr>raised = Some InvalidOperation, post = example_session, trace = []\<rparr>"
proof -
  have c: "clustering example_session = Some \<lparr>spike_clusters = [1, 1, 2, 2], new_cluster_id = 3,
        spike_clusters_base = [1, 1, 2, 2]\<rparr>"
    by (simp add: example_session_eq)
  show ?thesis
    using malformed_arguments_rejected [OF c, of "[1, 1]" "[]"]
      malformed_arguments_rejected [OF c, of "[1, 7]" "[0, 4]"]
    by (simp add: c cluster_ids_def)
qed

subsection \<open>Merging clusters\<close>

text \<open>
  C1. On a session in use that has been opened, a merge of at least two distinct cluster
  ids, all of them in use, succeeds: the id minted for it was not in use before, the ids in
  use afterwards are that id and the ids not merged, the spikes that carry the new id are
  exactly the spikes of the merged clusters, every other spike keeps its cluster, and the
  descriptor that \<^verbatim>\<open>Clustering.merge\<close> returns and the \<^verbatim>\<open>cluster\<close> event carries reports the
  merged ids as removed and the new id as added and selected.
\<close>

theorem merge_post_state:
  assumes "reachable s" "clustering s = Some c"
    and "2 \<le> card (set clusters)" "set clusters \<subseteq> set (cluster_ids c)"
  shows "\<exists>up c'.
           clustering_merge c clusters = Inr (up, c') \<and>
           raised (session_merge clusters s) = None \<and>
           clustering (post (session_merge clusters s)) = Some c' \<and>
           new_cluster_id c \<notin> set (cluster_ids c) \<and>
           set (cluster_ids c') = insert (new_cluster_id c) (set (cluster_ids c) - set clusters) \<and>
           length (spike_clusters c') = length (spike_clusters c) \<and>
           {i. i < length (spike_clusters c) \<and> spike_clusters c' ! i = new_cluster_id c} =
             {i. i < length (spike_clusters c) \<and> spike_clusters c ! i \<in> set clusters} \<and>
           (\<forall>i < length (spike_clusters c).
              spike_clusters c ! i \<notin> set clusters \<longrightarrow> spike_clusters c' ! i = spike_clusters c ! i) \<and>
           removed up = set clusters \<and> added up = {new_cluster_id c} \<and>
           selected up = {new_cluster_id c} \<and>
           Emitted (Notify_cluster (Some up) None) \<in> set (trace (session_merge clusters s))"
proof -
  have inv: "session_inv s" by (rule reachable_inv [OF assms(1)])
  from inv assms(2) obtain h where h: "global_history s = Some h" "history_ok h c"
    by (rule inv_opened)
  define new where "new = new_cluster_id c"
  define up where "up = \<lparr>removed = set clusters, added = {new}, selected = {new}\<rparr>"
  define c' where "c' = c\<lparr>spike_clusters :=
      map (\<lambda>k. if k \<in> set clusters then new else k) (spike_clusters c),
      new_cluster_id := new + 1\<rparr>"
  have m: "clustering_merge c clusters = Inr (up, c')"
    using assms(3,4) by (simp add: clustering_merge_def Let_def up_def c'_def new_def set_cluster_ids)
  have fresh: "new \<notin> set (spike_clusters c)"
    using h(2) by (auto simp: history_ok_def new_def)
  have nonempty: "\<exists>k. k \<in> set clusters"
    using assms(3) by (cases clusters) auto
  have ids: "set (spike_clusters c') = insert new (set (spike_clusters c) - set clusters)"
    using assms(4) nonempty by (auto simp: c'_def set_cluster_ids)
  have spikes: "{i. i < length (spike_clusters c) \<and> spike_clusters c' ! i = new} =
      {i. i < length (spike_clusters c) \<and> spike_clusters c ! i \<in> set clusters}"
  proof -
    have "spike_clusters c ! i \<noteq> new" if "i < length (spike_clusters c)" for i
      using fresh nth_mem [OF that] by auto
    then show ?thesis by (auto simp: c'_def split: if_splits)
  qed
  have kept: "\<forall>i < length (spike_clusters c).
      spike_clusters c ! i \<notin> set clusters \<longrightarrow> spike_clusters c' ! i = spike_clusters c ! i"
    by (simp add: c'_def)
  note out = merge_outcome [OF inv assms(2) h(1) m]
  show ?thesis
    apply (rule exI [of _ up], rule exI [of _ c'])
    using m fresh ids spikes kept
    by (simp add: out set_cluster_ids new_def [symmetric]) (simp add: up_def c'_def)
qed

theorem merge_post_state_witness:
  "reachable example_session \<and>
   2 \<le> card (set [1, 2 :: int]) \<and>
   clustering (post (session_merge [1, 2] example_session)) =
     Some \<lparr>spike_clusters = [3, 3, 3, 3], new_cluster_id = 4,
        spike_clusters_base = [1, 1, 2, 2]\<rparr> \<and>
   cluster_ids \<lparr>spike_clusters = [3, 3, 3, 3], new_cluster_id = 4,
        spike_clusters_base = [1, 1, 2, 2]\<rparr> = [3]"
proof -
  have c: "clustering example_session = Some \<lparr>spike_clusters = [1, 1, 2, 2], new_cluster_id = 3,
        spike_clusters_base = [1, 1, 2, 2]\<rparr>"
    by (simp add: example_session_eq)
  have k: "2 \<le> card (set [1, 2 :: int])" by simp
  have sub: "set [1, 2 :: int] \<subseteq> set (cluster_ids \<lparr>spike_clusters = [1, 1, 2, 2], new_cluster_id = 3,
        spike_clusters_base = [1, 1, 2, 2]\<rparr>)"
    by (simp add: cluster_ids_def)
  from merge_post_state [OF example_session_reachable c k sub]
  obtain up c' where
    "clustering_merge \<lparr>spike_clusters = [1, 1, 2, 2], new_cluster_id = 3,
        spike_clusters_base = [1, 1, 2, 2]\<rparr> [1, 2] = Inr (up, c')"
    "clustering (post (session_merge [1, 2] example_session)) = Some c'"
    by blast
  then have "clustering (post (session_merge [1, 2] example_session)) =
     Some \<lparr>spike_clusters = [3, 3, 3, 3], new_cluster_id = 4,
        spike_clusters_base = [1, 1, 2, 2]\<rparr>"
    by (auto simp: clustering_merge_def Let_def)
  with example_session_reachable k show ?thesis by (simp add: cluster_ids_def)
qed

subsection \<open>Opening a dataset\<close>

lemma open_outcome:
  assumes "session_inv s" "model_or_load K fname mo = Inr m"
  shows "raised (session_open K fname mo s) = None"
    and "same_core
           (s\<lparr>model := Some m, filename := fname, global_history := Some GlobalHistory,
              clustering := Some (Clustering (m_spike_clusters m)),
              cluster_metadata := Some (m_cluster_metadata m),
              selector := Some (Selector (m_spike_clusters m) 100)\<rparr>)
           (post (session_open K fname mo s))"
    and "trace (session_open K fname mo s) =
           Emitted Notify_open # map (\<lambda>cb. Delivered cb Notify_open) (callbacks_for Ev_open s)"
proof -
  let ?s1 = "s\<lparr>model := Some m, filename := fname\<rparr>"
  have cb: "callbacks_inv ?s1" using assms(1) by (simp add: session_inv_def callbacks_inv_def)
  have m: "model ?s1 = Some m" by simp
  have eq: "session_open K fname mo s = emit Notify_open ?s1"
    by (simp add: session_open_def assms(2))
  note e = emit_open [OF cb m]
  show "raised (session_open K fname mo s) = None" using e by (simp add: eq)
  show "same_core
           (s\<lparr>model := Some m, filename := fname, global_history := Some GlobalHistory,
              clustering := Some (Clustering (m_spike_clusters m)),
              cluster_metadata := Some (m_cluster_metadata m),
              selector := Some (Selector (m_spike_clusters m) 100)\<rparr>)
           (post (session_open K fname mo s))"
    using e by (simp add: eq on_open_model [OF m])
  show "trace (session_open K fname mo s) =
           Emitted Notify_open # map (\<lambda>cb. Delivered cb Notify_open) (callbacks_for Ev_open s)"
    using e by (simp add: eq callbacks_for_def)
qed

text \<open>
  C6, as the claim states it, fails where the model that is opened has been opened before:
  \<^verbatim>\<open>on_open\<close> takes the cluster metadata object of the model as it is, a move of the earlier
  session has changed that object in place, and the group it gave is still there after
  \<^verbatim>\<open>open\<close>. No cluster metadata is constructed and that part of the earlier state is kept.
\<close>

theorem reopen_keeps_moved_group_counterexample:
  "model (post (session_move [1] 2 example_session)) =
     Some \<lparr>m_spike_clusters = [1, 1, 2, 2], m_cluster_metadata = [(1, 2), (2, 0)]\<rparr> \<and>
   raised (session_open no_file None (model (post (session_move [1] 2 example_session)))
     (post (session_move [1] 2 example_session))) = None \<and>
   cluster_metadata (post (session_open no_file None
     (model (post (session_move [1] 2 example_session)))
     (post (session_move [1] 2 example_session)))) = Some [(1, 2), (2, 0)] \<and>
   cluster_metadata (post (session_open no_file None
     (model (post (session_move [1] 2 example_session)))
     (post (session_move [1] 2 example_session)))) \<noteq> cluster_metadata example_session"
proof -
  have m: "session_move [1] 2 example_session =
     \<lparr>raised = None,
      post = example_session
        \<lparr>cluster_metadata := Some [(1, 2), (2, 0)],
         model := Some \<lparr>m_spike_clusters = [1, 1, 2, 2],
                        m_cluster_metadata = [(1, 2), (2, 0)]\<rparr>,
         global_history := Some \<lparr>undo_stack = [Snapshot [1, 1, 2, 2], Baseline],
                                 redo_stack = []\<rparr>\<rparr>,
      trace =
        [Emitted (Notify_cluster (Some \<lparr>removed = {}, added = {}, selected = {}\<rparr>) None),
         Delivered Session_on_cluster
           (Notify_cluster (Some \<lparr>removed = {}, added = {}, selected = {}\<rparr>) None)]\<rparr>"
    by (simp add: example_session_eq session_eval)
  have a: "model (post (session_move [1] 2 example_session)) =
     Some \<lparr>m_spike_clusters = [1, 1, 2, 2], m_cluster_metadata = [(1, 2), (2, 0)]\<rparr>"
    by (simp add: m)
  have o: "raised (session_open no_file None (model (post (session_move [1] 2 example_session)))
       (post (session_move [1] 2 example_session))) = None"
    "cluster_metadata (post (session_open no_file None
       (model (post (session_move [1] 2 example_session)))
       (post (session_move [1] 2 example_session)))) = Some [(1, 2), (2, 0)]"
    unfolding a
    by (simp_all add: m)
      (simp_all add: example_session_eq session_open_def model_or_load_def emit_def
        callbacks_for_def on_open_def Let_def)
  have e: "cluster_metadata example_session = Some [(1, 0), (2, 0)]"
    by (simp add: example_session_eq)
  have "cluster_metadata (post (session_open no_file None
       (model (post (session_move [1] 2 example_session)))
       (post (session_move [1] 2 example_session)))) \<noteq> cluster_metadata example_session"
    unfolding o(2) e by simp
  with a o show ?thesis by blast
qed

text \<open>
  C6, amended. Every call of \<^verbatim>\<open>open\<close> on a session in use that gets a model, given or
  loaded, returns with that model stored, a clustering and a selector newly built from its
  assignment and a history that holds the initial baseline only, whatever the session held
  before. The cluster metadata is not built anew: it is the metadata object of that model,
  shared with it, and a later move changes it in the session and in the model alike.
\<close>

theorem open_replaces_substate:
  assumes "reachable s" "model_or_load K fname mo = Inr m"
  shows "raised (session_open K fname mo s) = None \<and>
         model (post (session_open K fname mo s)) = Some m \<and>
         clustering (post (session_open K fname mo s)) = Some (Clustering (m_spike_clusters m)) \<and>
         selector (post (session_open K fname mo s)) = Some (Selector (m_spike_clusters m) 100) \<and>
         cluster_metadata (post (session_open K fname mo s)) = Some (m_cluster_metadata m) \<and>
         global_history (post (session_open K fname mo s)) = Some GlobalHistory \<and>
         (\<forall>clusters g.
            cluster_metadata (post (session_move clusters g (post (session_open K fname mo s)))) =
              Some (snd (set_group (m_cluster_metadata m) clusters g)) \<and>
            map_option m_cluster_metadata
                (model (post (session_move clusters g (post (session_open K fname mo s))))) =
              Some (snd (set_group (m_cluster_metadata m) clusters g)))"
proof -
  let ?s' = "post (session_open K fname mo s)"
  note o = open_outcome(1,2) [OF reachable_inv [OF assms(1)] assms(2)]
  have inv': "session_inv ?s'" by (rule inv_open [OF reachable_inv [OF assms(1)] ])
  have f: "model ?s' = Some m" "clustering ?s' = Some (Clustering (m_spike_clusters m))"
    "cluster_metadata ?s' = Some (m_cluster_metadata m)"
    "global_history ?s' = Some GlobalHistory"
    "selector ?s' = Some (Selector (m_spike_clusters m) 100)"
    using o(2) by (simp_all add: same_core_def)
  have "cluster_metadata (post (session_move clusters g ?s')) =
          Some (snd (set_group (m_cluster_metadata m) clusters g)) \<and>
        map_option m_cluster_metadata (model (post (session_move clusters g ?s'))) =
          Some (snd (set_group (m_cluster_metadata m) clusters g))" for clusters g
  proof -
    obtain up md' where sg: "set_group (m_cluster_metadata m) clusters g = (up, md')"
      by (cases "set_group (m_cluster_metadata m) clusters g")
    show ?thesis
      by (simp add: move_outcome [OF inv' f(2) f(4) f(3) sg] sg f(1))
  qed
  with o(1) f show ?thesis by simp
qed

theorem open_replaces_substate_witness:
  "reachable (post (session_merge [1, 2] example_session)) \<and>
   clustering (post (session_merge [1, 2] example_session)) =
     Some \<lparr>spike_clusters = [3, 3, 3, 3], new_cluster_id = 4,
        spike_clusters_base = [1, 1, 2, 2]\<rparr> \<and>
   clustering (post (session_open no_file None (Some other_model)
       (post (session_merge [1, 2] example_session)))) =
     Some \<lparr>spike_clusters = [5, 6, 6], new_cluster_id = 7,
        spike_clusters_base = [5, 6, 6]\<rparr> \<and>
   global_history (post (session_open no_file None (Some other_model)
       (post (session_merge [1, 2] example_session)))) =
     Some \<lparr>undo_stack = [Baseline],
        redo_stack = []\<rparr>"
proof -
  have r: "reachable (post (session_merge [1, 2] example_session))"
    using reachable.step [OF example_session_reachable, of no_file "Cmd_merge [1, 2]"] by simp
  have m: "model_or_load no_file None (Some other_model) = Inr other_model"
    by (simp add: model_or_load_def)
  have c: "clustering (post (session_merge [1, 2] example_session)) =
     Some \<lparr>spike_clusters = [3, 3, 3, 3], new_cluster_id = 4,
        spike_clusters_base = [1, 1, 2, 2]\<rparr>"
    by (simp add: example_session_eq session_merge_def clustering_merge_def Let_def emit_def
        callbacks_for_def on_cluster_def)
  from open_replaces_substate [OF r m] r c show ?thesis
    by (simp add: other_model_def Clustering_def GlobalHistory_def del: split_paired_All)
qed

text \<open>
  C10. Opening again on an opened session replaces model, clustering, selector, cluster
  metadata and history and leaves the connected callbacks as they are: each callback
  connected to \<^verbatim>\<open>open\<close>, those of \<^verbatim>\<open>show_waveforms\<close> included, is called once with the new
  notification, after the session's own \<^verbatim>\<open>on_open\<close>.
\<close>

theorem reopen_keeps_observers:
  assumes "reachable s" "opened s" "model_or_load K fname mo = Inr m"
  shows "raised (session_open K fname mo s) = None \<and>
         callbacks (post (session_open K fname mo s)) = callbacks s \<and>
         trace (session_open K fname mo s) =
           Emitted Notify_open # map (\<lambda>cb. Delivered cb Notify_open) (callbacks_for Ev_open s) \<and>
         (\<forall>cb. (Ev_open, cb) \<in> set (callbacks s) \<longrightarrow>
            Delivered cb Notify_open \<in> set (trace (session_open K fname mo s))) \<and>
         model (post (session_open K fname mo s)) = Some m \<and>
         clustering (post (session_open K fname mo s)) = Some (Clustering (m_spike_clusters m)) \<and>
         selector (post (session_open K fname mo s)) = Some (Selector (m_spike_clusters m) 100) \<and>
         cluster_metadata (post (session_open K fname mo s)) = Some (m_cluster_metadata m) \<and>
         global_history (post (session_open K fname mo s)) = Some GlobalHistory"
proof -
  note o = open_outcome [OF reachable_inv [OF assms(1)] assms(3)]
  have "Delivered cb Notify_open \<in> set (trace (session_open K fname mo s))"
    if "(Ev_open, cb) \<in> set (callbacks s)" for cb
  proof -
    from that have "cb \<in> set (callbacks_for Ev_open s)"
      by (force simp: callbacks_for_def)
    then show ?thesis by (simp add: o(3))
  qed
  with o show ?thesis by (simp add: same_core_def)
qed

lemma watched_session_reachable: "reachable watched_session"
  unfolding watched_session_def
  by (intro reachable.step example_session_reachable)

lemma watched_session_callbacks:
  "callbacks watched_session =
     [(Ev_open, Session_on_open), (Ev_cluster, Session_on_cluster), (Ev_open, View_on_open 0),
      (Ev_cluster, View_on_cluster 0), (Ev_select, View_on_select 0), (Ev_open, Observer 0)]"
  by (simp add: watched_session_def example_session_eq session_show_waveforms_def Let_def
      connect_def view_on_open_def view_on_select_def upd_view_def example_model_def
      selected_spikes_def spikes_in_clusters_def subsample_def)

lemma watched_session_opened: "opened watched_session"
  by (simp add: watched_session_def example_session_eq session_show_waveforms_def Let_def
      connect_def view_on_open_def view_on_select_def upd_view_def example_model_def
      selected_spikes_def spikes_in_clusters_def subsample_def opened_def)

theorem reopen_keeps_observers_witness:
  "reachable watched_session \<and> opened watched_session \<and>
   (Ev_open, View_on_open 0) \<in> set (callbacks watched_session) \<and>
   callbacks (post (session_open no_file None (Some other_model) watched_session)) =
     callbacks watched_session \<and>
   trace (session_open no_file None (Some other_model) watched_session) =
     [Emitted Notify_open, Delivered Session_on_open Notify_open,
      Delivered (View_on_open 0) Notify_open, Delivered (Observer 0) Notify_open] \<and>
   model (post (session_open no_file None (Some other_model) watched_session)) =
     Some other_model"
proof -
  have m: "model_or_load no_file None (Some other_model) = Inr other_model"
    by (simp add: model_or_load_def)
  from reopen_keeps_observers [OF watched_session_reachable watched_session_opened m]
    watched_session_reachable watched_session_opened
  show ?thesis
    by (simp add: watched_session_callbacks callbacks_for_def)
qed

subsection \<open>Undo and redo with nothing to replay\<close>

lemma replay_noop:
  assumes "session_inv s" "global_history s = Some h"
  shows "length (undo_stack h) \<le> 1 \<Longrightarrow>
           session_undo s =
             \<lparr>raised = None, post = s,
              trace = Emitted (Notify_cluster None (Some False)) #
                map (\<lambda>cb. Delivered cb (Notify_cluster None (Some False)))
                  (callbacks_for Ev_cluster s)\<rparr>"
    and "redo_stack h = [] \<Longrightarrow>
           session_redo s =
             \<lparr>raised = None, post = s,
              trace = Emitted (Notify_cluster None (Some False)) #
                map (\<lambda>cb. Delivered cb (Notify_cluster None (Some False)))
                  (callbacks_for Ev_cluster s)\<rparr>"
proof -
  have same: "s\<lparr>global_history := Some h, clustering := clustering s\<rparr> = s"
    using assms(2) by (cases s) simp
  show "session_undo s =
             \<lparr>raised = None, post = s,
              trace = Emitted (Notify_cluster None (Some False)) #
                map (\<lambda>cb. Delivered cb (Notify_cluster None (Some False)))
                  (callbacks_for Ev_cluster s)\<rparr>" if "length (undo_stack h) \<le> 1"
  proof -
    from that have "gh_undo (clustering s) h = (None, h, None)"
      by (cases "undo_stack h"; cases "tl (undo_stack h)") (simp_all add: gh_undo_def)
    then show ?thesis
      by (simp add: replay_outcome(1) [OF assms] restored_def same)
  qed
  show "session_redo s =
             \<lparr>raised = None, post = s,
              trace = Emitted (Notify_cluster None (Some False)) #
                map (\<lambda>cb. Delivered cb (Notify_cluster None (Some False)))
                  (callbacks_for Ev_cluster s)\<rparr>" if "redo_stack h = []"
  proof -
    from that have "gh_redo (clustering s) h = (None, h, None)" by (simp add: gh_redo_def)
    then show ?thesis
      by (simp add: replay_outcome(2) [OF assms] restored_def same)
  qed
qed

lemma funpow_fixed: "f x = x \<Longrightarrow> (f ^^ n) x = x"
  by (induction n) simp_all

text \<open>
  C7. On an opened session in use, \<^verbatim>\<open>undo\<close> with at most one entry on the undo stack and
  \<^verbatim>\<open>redo\<close> with an empty redo stack raise nothing, get the marker for nothing to replay
  from the history and pass it on in the \<^verbatim>\<open>cluster\<close> event, and leave the whole session,
  assignment and both stacks included, as it was, however often they are repeated.
\<close>

theorem empty_history_noop:
  assumes "reachable s" "global_history s = Some h"
  shows "(length (undo_stack h) \<le> 1 \<longrightarrow>
            fst (gh_undo (clustering s) h) = None \<and>
            session_undo s =
              \<lparr>raised = None, post = s,
               trace = Emitted (Notify_cluster None (Some False)) #
                 map (\<lambda>cb. Delivered cb (Notify_cluster None (Some False)))
                   (callbacks_for Ev_cluster s)\<rparr> \<and>
            (\<forall>n. ((\<lambda>s. post (session_undo s)) ^^ n) s = s)) \<and>
         (redo_stack h = [] \<longrightarrow>
            fst (gh_redo (clustering s) h) = None \<and>
            session_redo s =
              \<lparr>raised = None, post = s,
               trace = Emitted (Notify_cluster None (Some False)) #
                 map (\<lambda>cb. Delivered cb (Notify_cluster None (Some False)))
                   (callbacks_for Ev_cluster s)\<rparr> \<and>
            (\<forall>n. ((\<lambda>s. post (session_redo s)) ^^ n) s = s))"
proof -
  note inv = reachable_inv [OF assms(1)]
  have u: "fst (gh_undo (clustering s) h) = None" if "length (undo_stack h) \<le> 1"
    using that by (cases "undo_stack h"; cases "tl (undo_stack h)") (simp_all add: gh_undo_def)
  have r: "fst (gh_redo (clustering s) h) = None" if "redo_stack h = []"
    using that by (simp add: gh_redo_def)
  have "((\<lambda>s. post (session_undo s)) ^^ n) s = s" if "length (undo_stack h) \<le> 1" for n
    by (rule funpow_fixed) (simp add: replay_noop(1) [OF inv assms(2) that])
  moreover have "((\<lambda>s. post (session_redo s)) ^^ n) s = s" if "redo_stack h = []" for n
    by (rule funpow_fixed) (simp add: replay_noop(2) [OF inv assms(2) that])
  ultimately show ?thesis
    using u r replay_noop [OF inv assms(2)] by simp
qed

theorem empty_history_noop_witness:
  "reachable example_session \<and>
   global_history example_session = Some \<lparr>undo_stack = [Baseline],
        redo_stack = []\<rparr> \<and>
   session_undo example_session =
     \<lparr>raised = None, post = example_session,
      trace = [Emitted (Notify_cluster None (Some False)),
               Delivered Session_on_cluster (Notify_cluster None (Some False))]\<rparr> \<and>
   post (session_undo (post (session_undo example_session))) = example_session \<and>
   session_redo example_session =
     \<lparr>raised = None, post = example_session,
      trace = [Emitted (Notify_cluster None (Some False)),
               Delivered Session_on_cluster (Notify_cluster None (Some False))]\<rparr>"
proof -
  have h: "global_history example_session = Some \<lparr>undo_stack = [Baseline],
        redo_stack = []\<rparr>"
    by (simp add: example_session_eq)
  have cbs: "callbacks_for Ev_cluster example_session = [Session_on_cluster]"
    by (simp add: example_session_eq callbacks_for_def)
  from empty_history_noop [OF example_session_reachable h]
  have "session_undo example_session =
     \<lparr>raised = None, post = example_session,
      trace = [Emitted (Notify_cluster None (Some False)),
               Delivered Session_on_cluster (Notify_cluster None (Some False))]\<rparr>"
    and "session_redo example_session =
     \<lparr>raised = None, post = example_session,
      trace = [Emitted (Notify_cluster None (Some False)),
               Delivered Session_on_cluster (Notify_cluster None (Some False))]\<rparr>"
    by (simp_all add: cbs)
  with example_session_reachable h show ?thesis by simp
qed

subsection \<open>Before the first open\<close>

lemma never_opened_reachable: "never_opened s \<Longrightarrow> reachable s"
proof (induction rule: never_opened.induct)
  case (fresh b)
  show ?case by (rule reachable.init)
next
  case (failed_open s K fname mo)
  from reachable.step [OF failed_open.IH, of K "Cmd_open fname mo"] show ?case by simp
next
  case (other s cmd K)
  then show ?case by (intro reachable.step)
qed

lemma unopened_raises:
  assumes "unopened s" "needs_open cmd"
  shows "exec K cmd s = \<lparr>raised = Some AttributeError, post = s, trace = []\<rparr>"
  using assms
  by (cases cmd)
    (simp_all add: unopened_def session_select_def session_merge_def session_split_def
      session_move_def session_undo_def session_redo_def raise_def)

lemma unopened_show_waveforms:
  assumes "unopened s"
  shows "unopened (post (session_show_waveforms s))"
  using assms
  by (auto simp: unopened_def session_show_waveforms_def Let_def connect_def view_on_open_def
      view_on_select_def upd_view_def raise_def split: option.splits)

lemma never_opened_unopened: "never_opened s \<Longrightarrow> unopened s"
proof (induction rule: never_opened.induct)
  case (fresh b)
  show ?case by (simp add: unopened_def Session_def)
next
  case (failed_open s K fname mo)
  have inv: "session_inv s"
    by (rule reachable_inv [OF never_opened_reachable [OF failed_open.hyps(1)] ])
  show ?case
  proof (cases "model_or_load K fname mo")
    case (Inl e)
    with failed_open.IH show ?thesis by (simp add: session_open_def raise_def)
  next
    case (Inr m)
    from open_outcome(1) [OF inv Inr] failed_open.hyps(2) show ?thesis by simp
  qed
next
  case (other s cmd K)
  show ?case
  proof (cases "needs_open cmd")
    case True
    from unopened_raises [OF other.IH True] other.IH show ?thesis by simp
  next
    case False
    with other.hyps(2) other.IH show ?thesis
      by (cases cmd)
        (simp_all add: unopened_show_waveforms,
         simp_all add: unopened_def view_on_close_def unconnect_def connect_def)
  qed
qed

text \<open>
  C9. On a session on which no \<^verbatim>\<open>open\<close> has returned yet, none of the attributes that
  \<^verbatim>\<open>on_open\<close> sets exists, and \<^verbatim>\<open>select\<close>, \<^verbatim>\<open>merge\<close>, \<^verbatim>\<open>split\<close>, \<^verbatim>\<open>move\<close>, \<^verbatim>\<open>undo\<close> and
  \<^verbatim>\<open>redo\<close> raise an error with the session unchanged and nothing emitted or delivered.
\<close>

theorem unopened_session_raises:
  assumes "never_opened s" "needs_open cmd"
  shows "unopened s \<and> exec K cmd s = \<lparr>raised = Some AttributeError, post = s, trace = []\<rparr>"
  using never_opened_unopened [OF assms(1)] unopened_raises [OF _ assms(2)] by simp

theorem unopened_session_raises_witness:
  "never_opened (post (session_show_waveforms (Session None))) \<and>
   needs_open (Cmd_select [1]) \<and>
   (Ev_select, View_on_select 0) \<in> set (callbacks (post (session_show_waveforms (Session None)))) \<and>
   session_select [1] (post (session_show_waveforms (Session None))) =
     \<lparr>raised = Some AttributeError, post = post (session_show_waveforms (Session None)),
      trace = []\<rparr>"
proof -
  have n: "never_opened (post (session_show_waveforms (Session None)))"
    using never_opened.other [OF never_opened.fresh [of None], of Cmd_show_waveforms no_file] by simp
  have c: "(Ev_select, View_on_select 0) \<in>
      set (callbacks (post (session_show_waveforms (Session None))))"
    by (simp add: session_show_waveforms_def Session_def Let_def connect_def view_on_open_def
        view_on_select_def raise_def)
  from unopened_session_raises [OF n, of "Cmd_select [1]" no_file] n c show ?thesis by simp
qed

subsection \<open>What gets recorded\<close>

lemma inert_not_recorded:
  "list_all inert cs \<Longrightarrow> filter records (map (\<lambda>cb. Delivered cb n) cs) = []"
proof (induction cs)
  case Nil
  show ?case by simp
next
  case (Cons cb cs)
  then show ?case by (cases cb) simp_all
qed

lemma recorded_once:
  assumes "callbacks_inv s"
  shows "length (filter records
           (Emitted (Notify_cluster up None) #
            map (\<lambda>cb. Delivered cb (Notify_cluster up None)) (callbacks_for Ev_cluster s))) = 1"
    and "filter records
           (Emitted (Notify_cluster up (Some False)) #
            map (\<lambda>cb. Delivered cb (Notify_cluster up (Some False)))
              (callbacks_for Ev_cluster s)) = []"
proof -
  from callbacks_for_cluster [OF assms] obtain cs where
    cs: "callbacks_for Ev_cluster s = Session_on_cluster # cs" "list_all inert cs" by blast
  show "length (filter records
           (Emitted (Notify_cluster up None) #
            map (\<lambda>cb. Delivered cb (Notify_cluster up None)) (callbacks_for Ev_cluster s))) = 1"
    by (simp add: cs(1) inert_not_recorded [OF cs(2)])
  show "filter records
           (Emitted (Notify_cluster up (Some False)) #
            map (\<lambda>cb. Delivered cb (Notify_cluster up (Some False)))
              (callbacks_for Ev_cluster s)) = []"
    by (simp add: cs(1) inert_not_recorded [OF cs(2)])
qed

lemma merge_base:
  "clustering_merge c clusters = Inr (up, c') \<Longrightarrow>
   spike_clusters_base c' = spike_clusters_base c"
  by (auto simp: clustering_merge_def Let_def split: if_splits)

lemma split_base:
  "clustering_split c spikes = Inr (up, c') \<Longrightarrow>
   spike_clusters_base c' = spike_clusters_base c"
  by (auto simp: clustering_split_def Let_def split: if_splits)

lemma mutation_outcome:
  assumes "session_inv s" "global_history s = Some h" "clustering s = Some c"
    "is_mutation cmd" "raised (exec K cmd s) = None"
  shows "\<exists>c' up.
           clustering (post (exec K cmd s)) = Some c' \<and>
           global_history (post (exec K cmd s)) = Some (action c' h) \<and>
           (is_move cmd \<longrightarrow> c' = c) \<and>
           spike_clusters_base c' = spike_clusters_base c \<and>
           trace (exec K cmd s) =
             Emitted (Notify_cluster (Some up) None) #
             map (\<lambda>cb. Delivered cb (Notify_cluster (Some up) None)) (callbacks_for Ev_cluster s)"
proof (cases cmd)
  case (Cmd_merge clusters)
  show ?thesis
  proof (cases "clustering_merge c clusters")
    case (Inl e)
    with assms(3,5) show ?thesis by (simp add: Cmd_merge session_merge_def raise_def)
  next
    case (Inr p)
    obtain up c' where p: "p = (up, c')" by (cases p)
    show ?thesis
      by (simp add: Cmd_merge merge_outcome [OF assms(1,3,2) Inr [unfolded p] ]
          merge_base [OF Inr [unfolded p] ])
  qed
next
  case (Cmd_split spikes)
  show ?thesis
  proof (cases "clustering_split c spikes")
    case (Inl e)
    with assms(3,5) show ?thesis by (simp add: Cmd_split session_split_def raise_def)
  next
    case (Inr p)
    obtain up c' where p: "p = (up, c')" by (cases p)
    show ?thesis
      by (simp add: Cmd_split split_outcome [OF assms(1,3,2) Inr [unfolded p] ]
          split_base [OF Inr [unfolded p] ])
  qed
next
  case (Cmd_move clusters g)
  from assms(1,2) obtain md where md: "cluster_metadata s = Some md"
    by (auto simp: session_inv_def)
  obtain up md' where sg: "set_group md clusters g = (up, md')"
    by (cases "set_group md clusters g")
  show ?thesis
    by (simp add: Cmd_move move_outcome [OF assms(1,3,2) md sg] assms(3))
qed (use assms(4) in simp_all)

text \<open>
  C3. On an opened session in use, a merge, split or move that returns has pushed exactly
  one entry, the capture of the clustering as it is afterwards, onto the history that was
  there (one delivery in which \<^verbatim>\<open>on_cluster\<close> calls \<^verbatim>\<open>action\<close>); \<^verbatim>\<open>undo\<close> and \<^verbatim>\<open>redo\<close> emit
  the \<^verbatim>\<open>cluster\<close> event with \<^verbatim>\<open>add_to_stack\<close> false, leave the history as the replay left
  it, and no delivery calls \<^verbatim>\<open>action\<close>.
\<close>

theorem history_recording:
  assumes "reachable s" "global_history s = Some h"
  shows "(is_mutation cmd \<and> raised (exec K cmd s) = None \<longrightarrow>
            (\<exists>c' up.
               clustering (post (exec K cmd s)) = Some c' \<and>
               global_history (post (exec K cmd s)) = Some (action c' h) \<and>
               hd (trace (exec K cmd s)) = Emitted (Notify_cluster (Some up) None)) \<and>
            length (filter records (trace (exec K cmd s))) = 1) \<and>
         (\<exists>up h' r.
            gh_undo (clustering s) h = (up, h', r) \<and>
            raised (session_undo s) = None \<and>
            global_history (post (session_undo s)) = Some h' \<and>
            hd (trace (session_undo s)) = Emitted (Notify_cluster up (Some False))) \<and>
         filter records (trace (session_undo s)) = [] \<and>
         (\<exists>up h' r.
            gh_redo (clustering s) h = (up, h', r) \<and>
            raised (session_redo s) = None \<and>
            global_history (post (session_redo s)) = Some h' \<and>
            hd (trace (session_redo s)) = Emitted (Notify_cluster up (Some False))) \<and>
         filter records (trace (session_redo s)) = [] \<and>
         on_cluster up0 False s = (None, s)"
proof -
  note inv = reachable_inv [OF assms(1)]
  from inv assms(2) obtain c where c: "clustering s = Some c" by (auto simp: session_inv_def)
  from inv have cb: "callbacks_inv s" by (simp add: session_inv_def)
  have mut: "(\<exists>c' up.
               clustering (post (exec K cmd s)) = Some c' \<and>
               global_history (post (exec K cmd s)) = Some (action c' h) \<and>
               hd (trace (exec K cmd s)) = Emitted (Notify_cluster (Some up) None)) \<and>
            length (filter records (trace (exec K cmd s))) = 1"
    if "is_mutation cmd" "raised (exec K cmd s) = None"
  proof -
    from mutation_outcome [OF inv assms(2) c that] obtain c' up where
      o: "clustering (post (exec K cmd s)) = Some c'"
        "global_history (post (exec K cmd s)) = Some (action c' h)"
        "trace (exec K cmd s) =
           Emitted (Notify_cluster (Some up) None) #
           map (\<lambda>cb. Delivered cb (Notify_cluster (Some up) None)) (callbacks_for Ev_cluster s)"
      by blast
    have "length (filter records (trace (exec K cmd s))) = 1"
      unfolding o(3) by (rule recorded_once(1) [OF cb])
    with o show ?thesis by auto
  qed
  obtain up h' r where u: "gh_undo (clustering s) h = (up, h', r)"
    by (cases "gh_undo (clustering s) h")
  obtain up2 h2 r2 where r: "gh_redo (clustering s) h = (up2, h2, r2)"
    by (cases "gh_redo (clustering s) h")
  note ou = replay_outcome(1) [OF inv assms(2), unfolded u, simplified]
  note orr = replay_outcome(2) [OF inv assms(2), unfolded r, simplified]
  have fu: "filter records (trace (session_undo s)) = []"
    unfolding ou using recorded_once(2) [OF cb, of up] by simp
  have fr: "filter records (trace (session_redo s)) = []"
    unfolding orr using recorded_once(2) [OF cb, of up2] by simp
  have "on_cluster up0 False s = (None, s)" by (simp add: on_cluster_def)
  with mut fu fr show ?thesis
    by (simp add: u r ou orr)
qed

theorem history_recording_witness:
  "reachable example_session \<and>
   global_history example_session = Some \<lparr>undo_stack = [Baseline],
        redo_stack = []\<rparr> \<and>
   is_mutation (Cmd_merge [1, 2]) \<and> raised (session_merge [1, 2] example_session) = None \<and>
   global_history (post (session_merge [1, 2] example_session)) =
     Some \<lparr>undo_stack = [Snapshot [3, 3, 3, 3], Baseline],
        redo_stack = []\<rparr> \<and>
   length (filter records (trace (session_merge [1, 2] example_session))) = 1 \<and>
   filter records (trace (session_undo example_session)) = []"
proof -
  have h: "global_history example_session = Some \<lparr>undo_stack = [Baseline],
        redo_stack = []\<rparr>"
    by (simp add: example_session_eq)
  have m: "is_mutation (Cmd_merge [1, 2]) \<and> raised (exec no_file (Cmd_merge [1, 2]) example_session) = None"
    by (simp add: merged_session_eq)
  from history_recording [OF example_session_reachable h, of "Cmd_merge [1, 2]" no_file] m
  have "length (filter records (trace (session_merge [1, 2] example_session))) = 1"
    and "filter records (trace (session_undo example_session)) = []"
    by simp_all
  with example_session_reachable h m show ?thesis
    by (simp add: merged_session_eq)
qed

subsection \<open>Undo and redo after a mutation\<close>

lemma cluster_ids_cong: "spike_clusters c = spike_clusters c' \<Longrightarrow> cluster_ids c = cluster_ids c'"
  by (simp add: cluster_ids_def)

lemma round_trip:
  assumes "session_inv s1" "global_history s1 = Some (action c' h)" "clustering s1 = Some c'"
    and "history_ok h c" "spike_clusters_base c' = spike_clusters_base c"
  shows "\<exists>c2 c3.
           clustering (post (session_undo s1)) = Some c2 \<and>
           spike_clusters c2 = spike_clusters c \<and>
           clustering (post (session_redo (post (session_undo s1)))) = Some c3 \<and>
           spike_clusters c3 = spike_clusters c'"
proof -
  from assms(4) obtain latest below where
    st: "undo_stack h = latest # below" "entry_state (Some c) latest = spike_clusters c"
    by (cases "undo_stack h") (auto simp: history_ok_def)
  have es: "entry_state (Some c') latest = spike_clusters c"
    by (simp add: entry_state_base [OF assms(5)] st(2))
  define h2 where
    "h2 = \<lparr>undo_stack = latest # below, redo_stack = [Snapshot (capture c')]\<rparr>"
  define c2 where "c2 = restore (spike_clusters c) c'"
  define s2 where "s2 = post (session_undo s1)"
  have gu: "gh_undo (Some c') (action c' h) =
      (Some (net_difference (capture c') (spike_clusters c)), h2, Some (spike_clusters c))"
    by (simp add: gh_undo_def action_def st(1) es h2_def)
  have h2s: "global_history s2 = Some h2" and c2s: "clustering s2 = Some c2"
    by (simp_all add: s2_def replay_outcome(1) [OF assms(1,2)] assms(3) gu restored_def c2_def)
  have inv2: "session_inv s2" unfolding s2_def by (rule inv_undo [OF assms(1)])
  have gr: "gh_redo (Some c2) h2 =
      (Some (net_difference (spike_clusters c) (capture c')),
       \<lparr>undo_stack = Snapshot (capture c') # latest # below, redo_stack = []\<rparr>,
       Some (capture c'))"
    by (simp add: gh_redo_def h2_def c2_def restore_def es
        entry_state_base [of "c'\<lparr>spike_clusters := spike_clusters c\<rparr>" c' latest])
  have c3s: "clustering (post (session_redo s2)) = Some (restore (capture c') c2)"
    by (simp add: replay_outcome(2) [OF inv2 h2s] c2s gr restored_def)
  show ?thesis
    using c2s c3s
    by (simp add: s2_def [symmetric]) (simp add: c2_def restore_def capture_def)
qed

text \<open>
  C2. On an opened session in use, after a merge, split or move that returns, an \<^verbatim>\<open>undo\<close>
  called at once gives back the \<^verbatim>\<open>spike_clusters\<close> and \<^verbatim>\<open>cluster_ids\<close> from before the
  mutation, and a \<^verbatim>\<open>redo\<close> called after that gives those from after the mutation.
\<close>

theorem undo_redo_round_trip:
  assumes "reachable s" "opened s" "is_mutation cmd" "raised (exec K cmd s) = None"
  shows "map_option spike_clusters (clustering (post (session_undo (post (exec K cmd s))))) =
           map_option spike_clusters (clustering s) \<and>
         map_option cluster_ids (clustering (post (session_undo (post (exec K cmd s))))) =
           map_option cluster_ids (clustering s) \<and>
         map_option spike_clusters
             (clustering (post (session_redo (post (session_undo (post (exec K cmd s))))))) =
           map_option spike_clusters (clustering (post (exec K cmd s))) \<and>
         map_option cluster_ids
             (clustering (post (session_redo (post (session_undo (post (exec K cmd s))))))) =
           map_option cluster_ids (clustering (post (exec K cmd s)))"
proof -
  note inv = reachable_inv [OF assms(1)]
  from assms(2) obtain h where h: "global_history s = Some h" by (auto simp: opened_def)
  from inv h obtain c where c: "clustering s = Some c" "history_ok h c"
    by (auto simp: session_inv_def)
  from mutation_outcome [OF inv h c(1) assms(3,4)] obtain c' where
    o: "clustering (post (exec K cmd s)) = Some c'"
      "global_history (post (exec K cmd s)) = Some (action c' h)"
      "spike_clusters_base c' = spike_clusters_base c"
    by blast
  have inv1: "session_inv (post (exec K cmd s))"
    by (rule reachable_inv [OF reachable.step [OF assms(1)] ])
  from round_trip [OF inv1 o(2) o(1) c(2) o(3)] obtain c2 c3 where
    r: "clustering (post (session_undo (post (exec K cmd s)))) = Some c2"
      "spike_clusters c2 = spike_clusters c"
      "clustering (post (session_redo (post (session_undo (post (exec K cmd s)))))) = Some c3"
      "spike_clusters c3 = spike_clusters c'"
    by blast
  show ?thesis
    by (simp add: r c(1) o(1) cluster_ids_cong [OF r(2)] cluster_ids_cong [OF r(4)])
qed

theorem undo_redo_round_trip_witness:
  "reachable example_session \<and> opened example_session \<and> is_mutation (Cmd_merge [1, 2]) \<and>
   raised (session_merge [1, 2] example_session) = None \<and>
   map_option spike_clusters (clustering example_session) = Some [1, 1, 2, 2] \<and>
   map_option spike_clusters (clustering (post (session_merge [1, 2] example_session))) =
     Some [3, 3, 3, 3] \<and>
   map_option spike_clusters
     (clustering (post (session_undo (post (session_merge [1, 2] example_session))))) =
     Some [1, 1, 2, 2] \<and>
   map_option cluster_ids
     (clustering (post (session_undo (post (session_merge [1, 2] example_session))))) =
     Some [1, 2] \<and>
   map_option spike_clusters
     (clustering (post (session_redo (post (session_undo
        (post (session_merge [1, 2] example_session))))))) =
     Some [3, 3, 3, 3] \<and>
   map_option cluster_ids
     (clustering (post (session_redo (post (session_undo
        (post (session_merge [1, 2] example_session))))))) =
     Some [3]"
proof -
  have o: "opened example_session" by (simp add: example_session_eq opened_def)
  have m: "is_mutation (Cmd_merge [1, 2])" by simp
  have r: "raised (exec no_file (Cmd_merge [1, 2]) example_session) = None"
    by (simp add: merged_session_eq)
  have c0: "map_option spike_clusters (clustering example_session) = Some [1, 1, 2, 2]"
    "map_option cluster_ids (clustering example_session) = Some [1, 2]"
    by (simp_all add: example_session_eq cluster_ids_def)
  have c1: "map_option spike_clusters (clustering (post (session_merge [1, 2] example_session))) =
      Some [3, 3, 3, 3]"
    "map_option cluster_ids (clustering (post (session_merge [1, 2] example_session))) =
      Some [3]"
    by (simp_all add: merged_session_eq cluster_ids_def)
  note t = undo_redo_round_trip [OF example_session_reachable o m r,
      unfolded exec.simps c0 c1]
  have r': "raised (session_merge [1, 2] example_session) = None"
    using r by simp
  from example_session_reachable o m r' c0(1) c1(1) t show ?thesis
    by blast
qed

subsection \<open>Moving clusters to a group\<close>

text \<open>
  C5. On the example dataset cluster 1 is moved to group 1 and then to group 2, each move
  being recorded and announced. The \<^verbatim>\<open>undo\<close> that follows replays the entry of the second
  move, which is a capture of the unchanged clustering, and leaves cluster 1 in group 2:
  the state before the move is not restored.
\<close>

theorem move_not_undone:
  "raised (session_move [1] 1 example_session) = None \<and>
   cluster_metadata (post (session_move [1] 1 example_session)) = Some [(1, 1), (2, 0)] \<and>
   raised (session_move [1] 2 (post (session_move [1] 1 example_session))) = None \<and>
   cluster_metadata (post (session_move [1] 2 (post (session_move [1] 1 example_session)))) =
     Some [(1, 2), (2, 0)] \<and>
   global_history (post (session_move [1] 2 (post (session_move [1] 1 example_session)))) =
     Some \<lparr>undo_stack = [Snapshot [1, 1, 2, 2], Snapshot [1, 1, 2, 2], Baseline],
        redo_stack = []\<rparr> \<and>
   raised (session_undo (post (session_move [1] 2 (post (session_move [1] 1 example_session))))) =
     None \<and>
   global_history
     (post (session_undo (post (session_move [1] 2 (post (session_move [1] 1 example_session)))))) =
     Some \<lparr>undo_stack = [Snapshot [1, 1, 2, 2], Baseline],
        redo_stack = [Snapshot [1, 1, 2, 2]]\<rparr> \<and>
   cluster_metadata
     (post (session_undo (post (session_move [1] 2 (post (session_move [1] 1 example_session)))))) =
     Some [(1, 2), (2, 0)]"
  by (simp add: example_session_eq session_eval)

end
